theory Spec2Isabelle
  imports Complex_Main "HOL-Library.Sublist" "HOL-Library.AList"
begin

section \<open>Configuration\<close>

text \<open>
  The module reads its settings from the environment once, at import time:
  \<^verbatim>\<open>API_KEY\<close> (absent unless \<^verbatim>\<open>INSTAWEB_API_KEY\<close> is set),
  \<^verbatim>\<open>RATE_LIMIT_COUNT\<close> (default 5), \<^verbatim>\<open>RATE_LIMIT_WINDOW\<close> (default 3600 seconds),
  \<^verbatim>\<open>RATE_LIMIT_CONCURRENT\<close> (default 3) and the download root
  \<^verbatim>\<open>BASE_DOWNLOAD_DIR\<close>. The three limits are Python ints parsed from strings, so
  they may be zero or negative.
\<close>

record config =
  API_KEY :: "string option"
  RATE_LIMIT_COUNT :: int
  RATE_LIMIT_WINDOW :: int
  RATE_LIMIT_CONCURRENT :: int
  BASE_DOWNLOAD_DIR :: string

definition default_config :: "string \<Rightarrow> config" where
  "default_config base =
     \<lparr>API_KEY = None, RATE_LIMIT_COUNT = 5, RATE_LIMIT_WINDOW = 60 * 60,
      RATE_LIMIT_CONCURRENT = 3, BASE_DOWNLOAD_DIR = base\<rparr>"

section \<open>Rate limiter\<close>

text \<open>
  \<^verbatim>\<open>rate_limit\<close> is a dict from client address to a list of request times.
  \<^verbatim>\<open>time.time()\<close> is passed in as \<open>now\<close>; times are seconds, modelled as reals.
  The function returns its verdict together with the dict after the call.
\<close>

type_synonym rate_store = "string \<rightharpoonup> real list"

definition check_rate_limit ::
  "config \<Rightarrow> real \<Rightarrow> string \<Rightarrow> rate_store \<Rightarrow> bool \<times> rate_store" where
  "check_rate_limit cfg now client rate_limit =
     (let times = (case rate_limit client of None \<Rightarrow> [] | Some ts \<Rightarrow> ts);
          times = filter (\<lambda>t. now - t < real_of_int (RATE_LIMIT_WINDOW cfg)) times
      in if int (length times) \<ge> RATE_LIMIT_COUNT cfg then (False, rate_limit)
         else (True, rate_limit(client \<mapsto> times @ [now])))"

text \<open>
  A run of admission checks, one per incoming request \<open>(now, client)\<close>, threading
  the dict through; the verdicts are returned in request order.
\<close>

fun check_rate_limit_run ::
  "config \<Rightarrow> (real \<times> string) list \<Rightarrow> rate_store \<Rightarrow> bool list \<times> rate_store" where
  "check_rate_limit_run cfg [] rl = ([], rl)"
| "check_rate_limit_run cfg ((now, client) # reqs) rl =
     (case check_rate_limit cfg now client rl of
        (ok, rl') \<Rightarrow>
          (case check_rate_limit_run cfg reqs rl' of
             (oks, rl'') \<Rightarrow> (ok # oks, rl'')))"

text \<open>The times of the admitted requests of one client in a run.\<close>

definition admitted_times ::
  "string \<Rightarrow> (real \<times> string) list \<Rightarrow> bool list \<Rightarrow> real list" where
  "admitted_times client reqs oks =
     map (\<lambda>(r, ok). fst r) (filter (\<lambda>(r, ok). ok \<and> snd r = client) (zip reqs oks))"

definition stored_times :: "rate_store \<Rightarrow> string \<Rightarrow> real list" where
  "stored_times rl client = (case rl client of None \<Rightarrow> [] | Some ts \<Rightarrow> ts)"


section \<open>Strings and paths\<close>

text \<open>
  Python's \<^verbatim>\<open>str.lower\<close> on the ASCII letters; \<^verbatim>\<open>startswith\<close>, \<^verbatim>\<open>endswith\<close> and
  \<^verbatim>\<open>in\<close> on strings are \<^const>\<open>prefix\<close>, \<^const>\<open>suffix\<close> and \<^const>\<open>sublist\<close>.
  Characters outside ASCII are left as they are.
\<close>

definition lower_char :: "char \<Rightarrow> char" where
  "lower_char c =
     (case map_of (zip ''ABCDEFGHIJKLMNOPQRSTUVWXYZ'' ''abcdefghijklmnopqrstuvwxyz'') c of
        None \<Rightarrow> c
      | Some l \<Rightarrow> l)"

definition lower :: "string \<Rightarrow> string" where
  "lower s = map lower_char s"

text \<open>\<^verbatim>\<open>str.isspace\<close> for one character below 256, as \<^verbatim>\<open>str.strip()\<close> uses it.\<close>

definition isspace :: "char \<Rightarrow> bool" where
  "isspace c \<longleftrightarrow> (of_char c :: nat) \<in> {9, 10, 11, 12, 13, 28, 29, 30, 31, 32, 133, 160}"

definition strip :: "string \<Rightarrow> string" where
  "strip s = rev (dropWhile isspace (rev (dropWhile isspace s)))"

text \<open>\<^verbatim>\<open>os.path.join\<close> and \<^verbatim>\<open>os.path.basename\<close> of two POSIX paths.\<close>

definition path_join :: "string \<Rightarrow> string \<Rightarrow> string" where
  "path_join a b =
     (if prefix ''/'' b then b
      else if a = [] \<or> suffix ''/'' a then a @ b
      else a @ ''/'' @ b)"

definition basename :: "string \<Rightarrow> string" where
  "basename p = rev (takeWhile (\<lambda>c. c \<noteq> CHR ''/'') (rev p))"

text \<open>Truthiness of an optional string: \<^verbatim>\<open>None\<close> and \<^verbatim>\<open>''\<close> are false.\<close>

definition truthy :: "string option \<Rightarrow> bool" where
  "truthy v \<longleftrightarrow> (case v of None \<Rightarrow> False | Some s \<Rightarrow> s \<noteq> [])"

text \<open>Python's \<^verbatim>\<open>a or b\<close> on two optional strings.\<close>

definition py_or :: "string option \<Rightarrow> string option \<Rightarrow> string option" where
  "py_or a b = (if truthy a then a else b)"

section \<open>URL validation\<close>

text \<open>
  \<^verbatim>\<open>urllib.parse.urlparse\<close> belongs to the standard library; it is a parameter
  of the model. It returns the components the validator reads, or raises
  (\<open>None\<close>).
\<close>

record parse_result =
  scheme :: string
  netloc :: string
  path :: string

type_synonym urlparse = "string \<Rightarrow> parse_result option"

definition is_valid_instagram_url :: "urlparse \<Rightarrow> string \<Rightarrow> bool" where
  "is_valid_instagram_url up u =
     (case up u of
        None \<Rightarrow> False
      | Some parsed \<Rightarrow>
          if scheme parsed \<notin> set [''http'', ''https''] then False
          else let host = lower (netloc parsed) in
            if \<not> (host = ''instagram.com'' \<or> suffix ''.instagram.com'' host) then False
            else let pth = lower (path parsed) in
              if list_ex (\<lambda>p. prefix p pth) [''/reel/'', ''/reels/'', ''/p/'', ''/tv/''] then True
              else if sublist ''/reel'' pth \<or> sublist ''/reels'' pth
                      \<or> sublist ''/p/'' pth \<or> sublist ''/tv/'' pth then True
              else False)"

text \<open>
  A stand-in for the library parser on URLs of the plain shape
  \<^verbatim>\<open>scheme://netloc/path\<close>, used to run examples.
\<close>

definition urlparse_plain :: urlparse where
  "urlparse_plain u =
     (let sch = takeWhile (\<lambda>c. c \<noteq> CHR '':'') u;
          rest = drop (length sch) u
      in if prefix ''://'' rest
         then let body = drop 3 rest;
                  loc = takeWhile (\<lambda>c. c \<noteq> CHR ''/'') body
              in Some \<lparr>scheme = lower sch, netloc = loc, path = drop (length loc) body\<rparr>
         else Some \<lparr>scheme = [], netloc = [], path = u\<rparr>)"

section \<open>Job table\<close>

text \<open>
  A job record is a dict; the keys \<^verbatim>\<open>temp_dir\<close>, \<^verbatim>\<open>error\<close>, \<^verbatim>\<open>filepath\<close>,
  \<^verbatim>\<open>filename\<close> and \<^verbatim>\<open>size\<close> are absent until the worker writes them. The four
  status strings \<^verbatim>\<open>'queued'\<close>, \<^verbatim>\<open>'running'\<close>, \<^verbatim>\<open>'ready'\<close>, \<^verbatim>\<open>'error'\<close> are the
  only ones the code ever stores. The table \<^verbatim>\<open>jobs\<close> is a dict in insertion order;
  every access to it is made while holding \<^verbatim>\<open>jobs_lock\<close>.
\<close>

datatype status = Queued | Running | Ready | Error

datatype progress =
    PQueued
  | PStarted
  | PDownloading real "real option" "real option" "real option"
  | PFinished
  | PError "string option"

record job =
  j_id :: string
  j_status :: status
  j_progress :: progress
  j_created_at :: real
  j_format :: string
  j_url :: string
  j_ip :: string
  j_proxy :: bool
  j_temp_dir :: "string option"
  j_error :: "string option"
  j_filepath :: "string option"
  j_filename :: "string option"
  j_size :: "nat option"

type_synonym jobs = "(string \<times> job) list"

text \<open>
  \<^verbatim>\<open>jobs[job_id][key] = value\<close> for one or more keys inside one locked block:
  it raises KeyError (\<open>None\<close>) when the record is gone.
\<close>

definition set_job :: "string \<Rightarrow> (job \<Rightarrow> job) \<Rightarrow> jobs \<Rightarrow> jobs option" where
  "set_job job_id f jobs =
     (case map_of jobs job_id of
        None \<Rightarrow> None
      | Some j \<Rightarrow> Some (AList.update job_id (f j) jobs))"

definition check_concurrent_limit :: "config \<Rightarrow> string \<Rightarrow> jobs \<Rightarrow> bool" where
  "check_concurrent_limit cfg client jobs =
     (let count = length (filter (\<lambda>j. j_ip j = client \<and> j_status j \<in> set [Queued, Running])
                                 (map snd jobs))
      in int count < RATE_LIMIT_CONCURRENT cfg)"

section \<open>Submission: \<^verbatim>\<open>POST /start\<close>\<close>

text \<open>
  The request as the handler reads it: the JSON body's \<^verbatim>\<open>url\<close>, \<^verbatim>\<open>format\<close>,
  \<^verbatim>\<open>api_key\<close> and \<^verbatim>\<open>proxy\<close> (each possibly missing), the headers
  \<^verbatim>\<open>X-API-Key\<close> and \<^verbatim>\<open>X-Forwarded-For\<close>, and the peer address.
\<close>

record request =
  r_url :: "string option"
  r_format :: "string option"
  r_api_key :: "string option"
  r_proxy :: "string option"
  r_header_api_key :: "string option"
  r_forwarded_for :: "string option"
  r_remote_addr :: "string option"

definition get_client_ip :: "request \<Rightarrow> string" where
  "get_client_ip req =
     (let remote = (case r_remote_addr req of
                      None \<Rightarrow> ''unknown''
                    | Some a \<Rightarrow> if a = [] then ''unknown'' else a)
      in case r_forwarded_for req of
           None \<Rightarrow> remote
         | Some forwarded \<Rightarrow>
             if forwarded = [] then remote
             else strip (takeWhile (\<lambda>c. c \<noteq> CHR '','') forwarded))"

text \<open>The answer of \<^verbatim>\<open>/start\<close>: 200 with the job id, or a status code with an error text.\<close>

datatype response = JobCreated string | Refused nat string

text \<open>
  \<open>now\<close> is the clock read by the rate limiter, \<open>created\<close> the later reading
  stored as \<^verbatim>\<open>created_at\<close>, \<open>uuid\<close> the value of \<^verbatim>\<open>uuid.uuid4().hex\<close>. When the
  answer is \<open>JobCreated\<close> the handler has also started the worker thread of that job.
\<close>

definition start ::
  "urlparse \<Rightarrow> config \<Rightarrow> request \<Rightarrow> real \<Rightarrow> real \<Rightarrow> string \<Rightarrow> jobs \<Rightarrow> rate_store
     \<Rightarrow> response \<times> jobs \<times> rate_store" where
  "start up cfg req now created uuid jobs rate_limit =
     (let fmt = (case r_format req of None \<Rightarrow> ''mp4'' | Some f \<Rightarrow> f);
          key = py_or (r_header_api_key req) (r_api_key req)
      in if truthy (API_KEY cfg) \<and> (\<not> truthy key \<or> key \<noteq> API_KEY cfg)
         then (Refused 401 ''Invalid or missing API key'', jobs, rate_limit)
         else case r_url req of
           None \<Rightarrow> (Refused 400 ''Invalid Instagram URL'', jobs, rate_limit)
         | Some u \<Rightarrow>
             if u = [] \<or> \<not> is_valid_instagram_url up u
             then (Refused 400 ''Invalid Instagram URL'', jobs, rate_limit)
             else let client = get_client_ip req in
               (case check_rate_limit cfg now client rate_limit of
                 (ok, rl) \<Rightarrow>
                   if \<not> ok then (Refused 429 ''Rate limit exceeded'', jobs, rl)
                   else
                   (JobCreated uuid,
                    AList.update uuid
                      \<lparr>j_id = uuid, j_status = Queued, j_progress = PQueued,
                       j_created_at = created, j_format = fmt, j_url = u, j_ip = client,
                       j_proxy = truthy (r_proxy req), j_temp_dir = None, j_error = None,
                       j_filepath = None, j_filename = None, j_size = None\<rparr> jobs,
                    rl)))"

section \<open>Download worker\<close>

subsection \<open>Progress hook\<close>

text \<open>
  The dict the engine hands to the hook. \<^verbatim>\<open>downloaded_bytes\<close> defaults to 0 when
  missing; the percentage is computed on reals.
\<close>

record hook_d =
  d_status :: "string option"
  d_total_bytes :: "real option"
  d_total_bytes_estimate :: "real option"
  d_downloaded_bytes :: "real option"
  d_eta :: "real option"
  d_errmsg :: "string option"

definition yt_progress_hook :: "string \<Rightarrow> hook_d \<Rightarrow> jobs \<Rightarrow> jobs" where
  "yt_progress_hook job_id d jobs =
     (case map_of jobs job_id of
        None \<Rightarrow> jobs
      | Some job \<Rightarrow>
          if d_status d = Some ''downloading'' then
            let total = (case d_total_bytes d of
                           None \<Rightarrow> d_total_bytes_estimate d
                         | Some b \<Rightarrow> if b = 0 then d_total_bytes_estimate d else Some b);
                downloaded = (case d_downloaded_bytes d of None \<Rightarrow> 0 | Some b \<Rightarrow> b);
                percent = (case total of
                             None \<Rightarrow> None
                           | Some t \<Rightarrow> if t = 0 then None else Some (downloaded / t * 100))
            in AList.update job_id
                 (job\<lparr>j_progress := PDownloading downloaded total percent (d_eta d)\<rparr>) jobs
          else if d_status d = Some ''finished'' then
            AList.update job_id (job\<lparr>j_progress := PFinished\<rparr>) jobs
          else if d_status d = Some ''error'' then
            AList.update job_id (job\<lparr>j_progress := PError (d_errmsg d)\<rparr>) jobs
          else jobs)"

subsection \<open>The job itself\<close>

text \<open>
  What the world does during one run of \<^verbatim>\<open>run_download_job\<close>: whether an unexpected
  exception escapes the preparation of the options (lines 232 to 280), how the
  engine call ends, what \<^verbatim>\<open>os.walk\<close> lists under the working directory (or that the
  search raises), and the result of \<^verbatim>\<open>os.path.getsize\<close> (\<open>None\<close> when it raises).
  An exception is given by its class and its text \<^verbatim>\<open>str(de)\<close>; \<open>NotException\<close>
  stands for the classes outside \<^verbatim>\<open>Exception\<close>, such as \<^verbatim>\<open>SystemExit\<close>.
\<close>

datatype exc_class = FileNotFoundError | OtherException | NotException

datatype engine_outcome = Returns | Raises exc_class string

record worker_env =
  setup_raises :: bool
  engine :: engine_outcome
  walk_raises :: bool
  walk :: "(string \<times> string list) list"
  getsize :: "nat option"

definition is_Exception :: "exc_class \<Rightarrow> bool" where
  "is_Exception c \<longleftrightarrow> c \<noteq> NotException"

definition login_keywords :: "string list" where
  "login_keywords =
     [''login'', ''403'', ''forbidden'', ''private'', ''authentication'',
      ''login_required'', ''not authorized'', ''please sign in'']"

definition err_text_for :: "string \<Rightarrow> string" where
  "err_text_for msg =
     (if list_ex (\<lambda>k. sublist k (lower msg)) login_keywords
      then ''Instagram requires login for this content. Unable to download without authentication.''
      else ''Failed to download media. The URL may be private or invalid.'')"

text \<open>The locked blocks that write a terminal status.\<close>

definition mark_error :: "string \<Rightarrow> string \<Rightarrow> jobs \<Rightarrow> jobs option" where
  "mark_error job_id err_text jobs =
     set_job job_id (\<lambda>j. j\<lparr>j_status := Error, j_error := Some err_text\<rparr>) jobs"

definition mark_ready :: "string \<Rightarrow> string \<Rightarrow> nat option \<Rightarrow> jobs \<Rightarrow> jobs option" where
  "mark_ready job_id produced sz jobs =
     set_job job_id
       (\<lambda>j. j\<lparr>j_status := Ready, j_filepath := Some produced,
              j_filename := Some (basename produced), j_size := sz\<rparr>) jobs"

text \<open>
  The outermost handler (lines 345 to 349), and a locked block inside the outer
  \<^verbatim>\<open>try\<close>: a KeyError raised in the block is caught by that handler.
\<close>

definition on_unexpected :: "string \<Rightarrow> jobs \<Rightarrow> jobs option" where
  "on_unexpected job_id jobs =
     mark_error job_id ''Server error while processing the download.'' jobs"

definition in_try :: "string \<Rightarrow> jobs \<Rightarrow> jobs option \<Rightarrow> jobs option" where
  "in_try job_id jobs r = (case r of Some js \<Rightarrow> Some js | None \<Rightarrow> on_unexpected job_id jobs)"

text \<open>
  The search for the produced file: the first listed directory that holds a file
  whose lower-cased name ends with the extension gives the result. An empty joined
  path counts as not found, as \<^verbatim>\<open>if produced\<close> tests truthiness.
\<close>

fun find_produced :: "string \<Rightarrow> (string \<times> string list) list \<Rightarrow> string option" where
  "find_produced final_ext [] = None"
| "find_produced final_ext ((dir, files) # rest) =
     (case List.find (\<lambda>f. suffix final_ext (lower f)) files of
        None \<Rightarrow> find_produced final_ext rest
      | Some f \<Rightarrow>
          if path_join dir f = [] then find_produced final_ext rest
          else Some (path_join dir f))"

text \<open>Lines 225 to 230: the working directory path and the first locked block.\<close>

definition run_download_job_enter :: "config \<Rightarrow> string \<Rightarrow> jobs \<Rightarrow> jobs option" where
  "run_download_job_enter cfg job_id jobs =
     (let temp_dir = path_join (BASE_DOWNLOAD_DIR cfg) job_id
      in set_job job_id
           (\<lambda>j. j\<lparr>j_temp_dir := Some temp_dir, j_status := Running, j_progress := PStarted\<rparr>)
           jobs)"

text \<open>
  Lines 231 to 349, from the outcome of the engine call on. The handlers of the inner
  \<^verbatim>\<open>try\<close> are tried in the order they are written. \<open>None\<close>: the thread ends with
  an uncaught exception and this step writes nothing.
\<close>

definition run_download_job_finish ::
  "worker_env \<Rightarrow> string \<Rightarrow> string \<Rightarrow> jobs \<Rightarrow> jobs option" where
  "run_download_job_finish env job_id fmt jobs =
     (if setup_raises env then on_unexpected job_id jobs
      else let final_ext = (if fmt = ''audio'' then ''mp3'' else ''mp4'') in
        case engine env of
          Raises c msg \<Rightarrow>
            if is_Exception c then
              in_try job_id jobs (mark_error job_id (err_text_for msg) jobs)
            else if c = FileNotFoundError then
              in_try job_id jobs
                (mark_error job_id ''ffmpeg not found or not executable. Please install ffmpeg.'' jobs)
            else if is_Exception c then
              in_try job_id jobs (mark_error job_id ''Unexpected error during download.'' jobs)
            else None
        | Returns \<Rightarrow>
            if walk_raises env then on_unexpected job_id jobs
            else (case find_produced final_ext (walk env) of
                    None \<Rightarrow>
                      in_try job_id jobs
                        (mark_error job_id ''Download finished but output file not found.'' jobs)
                  | Some produced \<Rightarrow>
                      in_try job_id jobs (mark_ready job_id produced (getsize env) jobs)))"

text \<open>
  One whole run with no other thread in between: \<open>makedirs_ok\<close> tells whether
  \<^verbatim>\<open>os.makedirs\<close> succeeded, \<open>calls\<close> are the hook calls the engine makes. The URL and
  the proxy only reach the engine. The result is the table after the thread's last write.
\<close>

definition run_download_job ::
  "config \<Rightarrow> bool \<Rightarrow> worker_env \<Rightarrow> hook_d list \<Rightarrow> string \<Rightarrow> string \<Rightarrow> jobs \<Rightarrow> jobs" where
  "run_download_job cfg makedirs_ok env calls job_id fmt jobs =
     (if \<not> makedirs_ok then jobs
      else case run_download_job_enter cfg job_id jobs of
        None \<Rightarrow> jobs
      | Some running \<Rightarrow>
          let during = (if setup_raises env then running
                        else fold (yt_progress_hook job_id) calls running)
          in (case run_download_job_finish env job_id fmt during of
                None \<Rightarrow> during
              | Some final \<Rightarrow> final))"

section \<open>Progress stream: \<^verbatim>\<open>GET /events/<job_id>\<close>\<close>

text \<open>
  The projection of the job that one poll serialises: \<^verbatim>\<open>{'status': 'unknown'}\<close> when
  the job is absent, the five-key dict otherwise.
\<close>

datatype payload =
    Unknown
  | Snapshot status progress "string option" "string option" "nat option"

definition events_payload :: "string \<Rightarrow> jobs \<Rightarrow> payload" where
  "events_payload job_id jobs =
     (case map_of jobs job_id of
        None \<Rightarrow> Unknown
      | Some job \<Rightarrow>
          Snapshot (j_status job) (j_progress job)
            (if j_status job = Error then j_error job else None)
            (j_filename job) (j_size job))"

text \<open>\<^verbatim>\<open>payload.get('status') in ('ready', 'error', 'unknown')\<close>\<close>

fun payload_closes :: "payload \<Rightarrow> bool" where
  "payload_closes Unknown = True"
| "payload_closes (Snapshot st pr e f sz) = (st = Ready \<or> st = Error)"

definition sse :: "string \<Rightarrow> string" where
  "sse s = ''data: '' @ s @ [CHR 0x0A, CHR 0x0A]"

text \<open>
  The generator of the stream; \<open>prev\<close> is its variable \<^verbatim>\<open>last\<close>, and
  \<^verbatim>\<open>json.dumps\<close> is the parameter \<open>dumps\<close>. The loop
  has no bound of its own: the model runs it over the tables seen by its successive
  polls, and returns the events yielded so far together with whether the generator
  has finished; when the polls run out first, it has not.
\<close>

fun gen ::
  "(payload \<Rightarrow> string) \<Rightarrow> string \<Rightarrow> string option \<Rightarrow> jobs list \<Rightarrow> string list \<times> bool" where
  "gen dumps job_id prev [] = ([], False)"
| "gen dumps job_id prev (jobs # later) =
     (let payload = events_payload job_id jobs;
          s = dumps payload;
          yielded = (if Some s \<noteq> prev then [sse s] else []);
          prev' = (if Some s \<noteq> prev then Some s else prev)
      in if payload_closes payload then (yielded, True)
         else (case gen dumps job_id prev' later of
                 (rest, fin) \<Rightarrow> (yielded @ rest, fin)))"

definition events :: "(payload \<Rightarrow> string) \<Rightarrow> string \<Rightarrow> jobs list \<Rightarrow> string list \<times> bool" where
  "events dumps job_id polls = gen dumps job_id None polls"

section \<open>Fetching the file: \<^verbatim>\<open>GET /download/<job_id>\<close>\<close>

datatype download_response = JobNotFound | FileNotReady | SendFile string string

definition download :: "string \<Rightarrow> jobs \<Rightarrow> download_response" where
  "download job_id jobs =
     (case map_of jobs job_id of
        None \<Rightarrow> JobNotFound
      | Some job \<Rightarrow>
          if j_status job \<noteq> Ready \<or> \<not> truthy (j_filepath job) then FileNotReady
          else (case j_filepath job of
                  None \<Rightarrow> FileNotReady
                | Some filepath \<Rightarrow>
                    SendFile filepath
                      (case j_filename job of
                         None \<Rightarrow> basename filepath
                       | Some n \<Rightarrow> if n = [] then basename filepath else n)))"

section \<open>Janitor\<close>

text \<open>
  One entry of the download root as a sweep meets it: its name, whether it is a
  directory, its modification time (\<open>None\<close> when \<^verbatim>\<open>os.path.getmtime\<close> raises) and
  whether removing it succeeds. \<^verbatim>\<open>shutil.rmtree\<close> is called with
  \<^verbatim>\<open>ignore_errors=True\<close> and never raises; \<^verbatim>\<open>os.remove\<close> raises when it fails.
\<close>

record dir_entry =
  e_name :: string
  e_isdir :: bool
  e_mtime :: "real option"
  e_removable :: bool

text \<open>Lines 190 to 193: the records dropped for one deleted path.\<close>

definition clear_jobs :: "string \<Rightarrow> jobs \<Rightarrow> jobs" where
  "clear_jobs pth jobs =
     filter (\<lambda>(jid, j). \<not> (j_temp_dir j = Some pth
                            \<or> prefix pth (case j_filepath j of None \<Rightarrow> [] | Some p \<Rightarrow> p)))
       jobs"

text \<open>
  Lines 182 to 195 for one name: the state is the entries left in the root so far and
  the job table. An exception is swallowed and the loop goes on to the next name.
\<close>

definition clean_entry ::
  "config \<Rightarrow> real \<Rightarrow> dir_entry \<Rightarrow> dir_entry list \<times> jobs \<Rightarrow> dir_entry list \<times> jobs" where
  "clean_entry cfg cutoff e st =
     (case st of (kept, jobs) \<Rightarrow>
        let pth = path_join (BASE_DOWNLOAD_DIR cfg) (e_name e) in
        (case e_mtime e of
           None \<Rightarrow> (kept @ [e], jobs)
         | Some mtime \<Rightarrow>
             if mtime < cutoff then
               if e_isdir e then
                 ((if e_removable e then kept else kept @ [e]), clear_jobs pth jobs)
               else if e_removable e then (kept, clear_jobs pth jobs)
               else (kept @ [e], jobs)
             else (kept @ [e], jobs)))"

text \<open>
  One pass of the \<^verbatim>\<open>while True\<close> loop of \<^verbatim>\<open>background_cleaner\<close>, between two sleeps:
  \<open>listdir_ok\<close> tells whether \<^verbatim>\<open>os.listdir\<close> succeeded. The result is the entries
  left in the root and the job table.
\<close>

definition background_cleaner ::
  "config \<Rightarrow> real \<Rightarrow> bool \<Rightarrow> dir_entry list \<Rightarrow> jobs \<Rightarrow> dir_entry list \<times> jobs" where
  "background_cleaner cfg now listdir_ok entries jobs =
     (let cutoff = now - 30 * 60
      in if \<not> listdir_ok then (entries, jobs)
         else fold (clean_entry cfg cutoff) entries ([], jobs))"

section \<open>The server as interleaved locked blocks\<close>

text \<open>
  Every thread touches the job table only inside a block guarded by
  \<^verbatim>\<open>jobs_lock\<close>, so a run of the server is a sequence of such blocks. The state
  holds the table, the rate-limit dict, the place each worker thread has reached,
  and the job identifiers handed out so far. \<^verbatim>\<open>uuid4\<close> is taken never to repeat a
  value: a \<open>Start\<close> that would create a job under an identifier handed out before is
  not a step.
\<close>

datatype thread_pc = Spawned string | InEngine string | Ended

record server =
  s_jobs :: jobs
  s_rate_limit :: rate_store
  s_threads :: "(string \<times> thread_pc) list"
  s_issued :: "string list"

definition boot :: server where
  "boot = \<lparr>s_jobs = [], s_rate_limit = Map.empty, s_threads = [], s_issued = []\<rparr>"

datatype action =
    Start request real real string
  | Enter string bool
  | Hook string hook_d
  | Finish string worker_env
  | Clean string

definition step :: "urlparse \<Rightarrow> config \<Rightarrow> action \<Rightarrow> server \<Rightarrow> server option" where
  "step up cfg a s =
     (case a of
        Start req now created uuid \<Rightarrow>
          (case start up cfg req now created uuid (s_jobs s) (s_rate_limit s) of
             (resp, jobs, rl) \<Rightarrow>
               (case resp of
                  Refused code msg \<Rightarrow> Some (s\<lparr>s_jobs := jobs, s_rate_limit := rl\<rparr>)
                | JobCreated jid \<Rightarrow>
                    if jid \<in> set (s_issued s) then None
                    else Some (s\<lparr>s_jobs := jobs, s_rate_limit := rl,
                                 s_threads :=
                                   AList.update jid
                                     (Spawned (case r_format req of None \<Rightarrow> ''mp4'' | Some f \<Rightarrow> f))
                                     (s_threads s),
                                 s_issued := jid # s_issued s\<rparr>)))
      | Enter job_id makedirs_ok \<Rightarrow>
          (case map_of (s_threads s) job_id of
             Some (Spawned fmt) \<Rightarrow>
               if \<not> makedirs_ok
               then Some (s\<lparr>s_threads := AList.update job_id Ended (s_threads s)\<rparr>)
               else (case run_download_job_enter cfg job_id (s_jobs s) of
                       None \<Rightarrow> Some (s\<lparr>s_threads := AList.update job_id Ended (s_threads s)\<rparr>)
                     | Some jobs \<Rightarrow>
                         Some (s\<lparr>s_jobs := jobs,
                                 s_threads := AList.update job_id (InEngine fmt) (s_threads s)\<rparr>))
           | _ \<Rightarrow> None)
      | Hook job_id d \<Rightarrow>
          (case map_of (s_threads s) job_id of
             Some (InEngine fmt) \<Rightarrow> Some (s\<lparr>s_jobs := yt_progress_hook job_id d (s_jobs s)\<rparr>)
           | _ \<Rightarrow> None)
      | Finish job_id env \<Rightarrow>
          (case map_of (s_threads s) job_id of
             Some (InEngine fmt) \<Rightarrow>
               Some (s\<lparr>s_jobs := (case run_download_job_finish env job_id fmt (s_jobs s) of
                                     None \<Rightarrow> s_jobs s
                                   | Some jobs \<Rightarrow> jobs),
                       s_threads := AList.update job_id Ended (s_threads s)\<rparr>)
           | _ \<Rightarrow> None)
      | Clean pth \<Rightarrow> Some (s\<lparr>s_jobs := clear_jobs pth (s_jobs s)\<rparr>))"

text \<open>The states a sequence of blocks passes through, when each is a step.\<close>

fun exec :: "urlparse \<Rightarrow> config \<Rightarrow> action list \<Rightarrow> server \<Rightarrow> server list option" where
  "exec up cfg [] s = Some []"
| "exec up cfg (a # as) s =
     (case step up cfg a s of
        None \<Rightarrow> None
      | Some s' \<Rightarrow> map_option (Cons s') (exec up cfg as s'))"

text \<open>The statuses of one job as successive readers of the table see them.\<close>

definition statuses :: "string \<Rightarrow> server list \<Rightarrow> status list" where
  "statuses job_id ss = map j_status (List.map_filter (\<lambda>s. map_of (s_jobs s) job_id) ss)"

fun rank :: "status \<Rightarrow> nat" where
  "rank Queued = 0"
| "rank Running = 1"
| "rank Ready = 2"
| "rank Error = 2"

section \<open>Example inputs\<close>

text \<open>Five requests of one client, a minute apart.\<close>

definition five_then_one :: "(real \<times> string) list" where
  "five_then_one = [(0, ''10.0.0.7''), (60, ''10.0.0.7''), (120, ''10.0.0.7''),
                    (180, ''10.0.0.7''), (240, ''10.0.0.7'')]"

text \<open>Jobs, requests and environments for the examples.\<close>

definition queued_job :: "string \<Rightarrow> string \<Rightarrow> job" where
  "queued_job jid client =
     \<lparr>j_id = jid, j_status = Queued, j_progress = PQueued, j_created_at = 0,
      j_format = ''mp4'', j_url = ''https://www.instagram.com/reel/abc/'', j_ip = client,
      j_proxy = False, j_temp_dir = None, j_error = None, j_filepath = None,
      j_filename = None, j_size = None\<rparr>"

definition three_queued :: jobs where
  "three_queued = [(''a1'', queued_job ''a1'' ''10.0.0.7''), (''a2'', queued_job ''a2'' ''10.0.0.7''),
                   (''a3'', queued_job ''a3'' ''10.0.0.7'')]"

definition reel_request :: request where
  "reel_request =
     \<lparr>r_url = Some ''https://www.instagram.com/reel/abc/'', r_format = None, r_api_key = None,
      r_proxy = None, r_header_api_key = None, r_forwarded_for = None,
      r_remote_addr = Some ''10.0.0.7''\<rparr>"

definition engine_raises :: "exc_class \<Rightarrow> string \<Rightarrow> worker_env" where
  "engine_raises c msg =
     \<lparr>setup_raises = False, engine = Raises c msg, walk_raises = False, walk = [],
      getsize = None\<rparr>"


section \<open>Relating tables\<close>

text \<open>
  Two job records that differ at most in their progress snapshot, and two tables
  whose records correspond in that way: the effect of the progress hook.
\<close>

definition progress_only :: "job \<Rightarrow> job \<Rightarrow> bool" where
  "progress_only j j' \<longleftrightarrow> j' = j\<lparr>j_progress := j_progress j'\<rparr>"

definition tables_agree :: "jobs \<Rightarrow> jobs \<Rightarrow> bool" where
  "tables_agree a b \<longleftrightarrow> (\<forall>k. rel_option progress_only (map_of a k) (map_of b k))"

section \<open>Observing the stream\<close>

text \<open>
  What a poll of the table tells about a job: it is over when its record is gone or
  its status is \<^verbatim>\<open>ready\<close> or \<^verbatim>\<open>error\<close>. For the examples: a serialiser that
  writes only the status word, a running job, and three polls that see a job queued
  and then running.
\<close>

definition job_is_over :: "string \<Rightarrow> jobs \<Rightarrow> bool" where
  "job_is_over job_id jobs \<longleftrightarrow>
     (case map_of jobs job_id of
        None \<Rightarrow> True
      | Some job \<Rightarrow> j_status job = Ready \<or> j_status job = Error)"

definition dumps_status :: "payload \<Rightarrow> string" where
  "dumps_status p =
     (case p of
        Unknown \<Rightarrow> ''unknown''
      | Snapshot st pr e f sz \<Rightarrow>
          (case st of Queued \<Rightarrow> ''queued'' | Running \<Rightarrow> ''running''
                    | Ready \<Rightarrow> ''ready'' | Error \<Rightarrow> ''error''))"

definition running_job :: "string \<Rightarrow> string \<Rightarrow> job" where
  "running_job jid client = (queued_job jid client)\<lparr>j_status := Running, j_progress := PStarted\<rparr>"

definition seen_before_removal :: "jobs list" where
  "seen_before_removal =
     [[(''a1'', queued_job ''a1'' ''10.0.0.7'')], [(''a1'', running_job ''a1'' ''10.0.0.7'')],
      [(''a1'', running_job ''a1'' ''10.0.0.7'')]]"

section \<open>Describing a sweep\<close>

text \<open>
  The path the Janitor builds for an entry; an entry older than the cutoff; the test
  of line 192, by which a deleted path names a job record; and the download root
  with its separator. Then a download root for the examples: a directory last
  modified at 100 s and one at 9000 s, an old directory that cannot be removed, an
  old plain file, and the finished jobs of the first two.
\<close>

definition entry_path :: "config \<Rightarrow> dir_entry \<Rightarrow> string" where
  "entry_path cfg e = path_join (BASE_DOWNLOAD_DIR cfg) (e_name e)"

definition entry_old :: "real \<Rightarrow> dir_entry \<Rightarrow> bool" where
  "entry_old cutoff e \<longleftrightarrow> (case e_mtime e of None \<Rightarrow> False | Some mtime \<Rightarrow> mtime < cutoff)"

definition names_job :: "string \<Rightarrow> job \<Rightarrow> bool" where
  "names_job pth j \<longleftrightarrow>
     j_temp_dir j = Some pth \<or> prefix pth (case j_filepath j of None \<Rightarrow> [] | Some p \<Rightarrow> p)"

definition base_prefix :: "config \<Rightarrow> string" where
  "base_prefix cfg =
     (if BASE_DOWNLOAD_DIR cfg = [] \<or> suffix ''/'' (BASE_DOWNLOAD_DIR cfg)
      then BASE_DOWNLOAD_DIR cfg else BASE_DOWNLOAD_DIR cfg @ ''/'')"

definition ready_job :: "string \<Rightarrow> string \<Rightarrow> string \<Rightarrow> job" where
  "ready_job jid client dir =
     (queued_job jid client)
       \<lparr>j_status := Ready, j_progress := PFinished, j_temp_dir := Some dir,
        j_filepath := Some (dir @ ''/clip.mp4''), j_filename := Some ''clip.mp4'',
        j_size := Some 1024\<rparr>"

definition srv :: config where
  "srv = default_config ''/srv/downloads''"

definition old_dir :: dir_entry where
  "old_dir = \<lparr>e_name = ''a1'', e_isdir = True, e_mtime = Some 100, e_removable = True\<rparr>"

definition young_dir :: dir_entry where
  "young_dir = \<lparr>e_name = ''b2'', e_isdir = True, e_mtime = Some 9000, e_removable = True\<rparr>"

definition stuck_dir :: dir_entry where
  "stuck_dir = \<lparr>e_name = ''a1'', e_isdir = True, e_mtime = Some 100, e_removable = False\<rparr>"

definition old_file :: dir_entry where
  "old_file = \<lparr>e_name = ''b'', e_isdir = False, e_mtime = Some 100, e_removable = True\<rparr>"

definition two_ready :: jobs where
  "two_ready = [(''a1'', ready_job ''a1'' ''10.0.0.7'' ''/srv/downloads/a1''),
                (''b2'', ready_job ''b2'' ''10.0.0.7'' ''/srv/downloads/b2'')]"

section \<open>Describing a run of the server\<close>

text \<open>
  The moves a status may make from one reader to the next, and the status sequences
  built from them, starting at \<^verbatim>\<open>queued\<close>; a record whose result fields are set;
  how one locked block may change a record that it keeps; what the place of a
  worker thread allows its job's status to be; and the invariant of the server: job
  identifiers in the table are distinct and were handed out, a \<^verbatim>\<open>ready\<close> record
  has its result fields, a job whose worker has not yet entered is \<^verbatim>\<open>queued\<close> and
  one whose worker is in the engine call is \<^verbatim>\<open>running\<close>. Last, the two ways a
  worker writes a terminal record, and a run for the examples: one submission, its
  worker entering, one progress call, and the download ending with a file.
\<close>

definition ok_move :: "status \<Rightarrow> status \<Rightarrow> bool" where
  "ok_move a b \<longleftrightarrow>
     a = b \<or> (a = Queued \<and> b = Running) \<or> (a = Running \<and> (b = Ready \<or> b = Error))"

fun follows :: "status \<Rightarrow> status list \<Rightarrow> bool" where
  "follows a [] = True"
| "follows a (b # xs) = (ok_move a b \<and> follows b xs)"

fun lifecycle :: "status list \<Rightarrow> bool" where
  "lifecycle [] = True"
| "lifecycle (a # xs) = (a = Queued \<and> follows a xs)"

definition result_set :: "job \<Rightarrow> bool" where
  "result_set j \<longleftrightarrow>
     (\<exists>p. p \<noteq> [] \<and> j_filepath j = Some p \<and> j_filename j = Some (basename p))"

definition evolves :: "job \<Rightarrow> job \<Rightarrow> bool" where
  "evolves j j' \<longleftrightarrow>
     ok_move (j_status j) (j_status j')
     \<and> (j_status j' = Ready \<longrightarrow> result_set j')"

fun pc_allows :: "thread_pc option \<Rightarrow> status \<Rightarrow> bool" where
  "pc_allows None st = True"
| "pc_allows (Some (Spawned f)) st = (st = Queued)"
| "pc_allows (Some (InEngine f)) st = (st = Running)"
| "pc_allows (Some Ended) st = True"

definition job_ok :: "string list \<Rightarrow> (string \<times> thread_pc) list \<Rightarrow> string \<Rightarrow> job \<Rightarrow> bool" where
  "job_ok issued threads k j \<longleftrightarrow>
     k \<in> set issued
     \<and> (j_status j = Ready \<longrightarrow> result_set j)
     \<and> pc_allows (map_of threads k) (j_status j)"

definition server_inv :: "server \<Rightarrow> bool" where
  "server_inv s \<longleftrightarrow>
     distinct (map fst (s_jobs s))
     \<and> (\<forall>k j. map_of (s_jobs s) k = Some j \<longrightarrow> job_ok (s_issued s) (s_threads s) k j)
     \<and> (\<forall>k pc. map_of (s_threads s) k = Some pc \<longrightarrow> k \<in> set (s_issued s))"

definition table_step :: "string list \<Rightarrow> jobs \<Rightarrow> jobs \<Rightarrow> bool" where
  "table_step issued jobs jobs' \<longleftrightarrow>
     (\<forall>k j'. map_of jobs' k = Some j' \<longrightarrow>
        (case map_of jobs k of
           Some j \<Rightarrow> evolves j j'
         | None \<Rightarrow> k \<notin> set issued \<and> j_status j' = Queued))"

definition good :: "server \<Rightarrow> server \<Rightarrow> bool" where
  "good s s' \<longleftrightarrow>
     server_inv s' \<and> set (s_issued s) \<subseteq> set (s_issued s')
     \<and> table_step (s_issued s) (s_jobs s) (s_jobs s')"

definition finished :: "job \<Rightarrow> job \<Rightarrow> bool" where
  "finished j j' \<longleftrightarrow>
     (\<exists>m. j' = j\<lparr>j_status := Error, j_error := Some m\<rparr>)
     \<or> (\<exists>p sz. p \<noteq> [] \<and> j' = j\<lparr>j_status := Ready, j_filepath := Some p,
                                     j_filename := Some (basename p), j_size := sz\<rparr>)"

definition half_way :: hook_d where
  "half_way = \<lparr>d_status = Some ''downloading'', d_total_bytes = Some 2048,
                d_total_bytes_estimate = None, d_downloaded_bytes = Some 1024,
                d_eta = Some 3, d_errmsg = None\<rparr>"

definition clip_env :: worker_env where
  "clip_env = \<lparr>setup_raises = False, engine = Returns, walk_raises = False,
                walk = [(''/srv/downloads/a1'', [''clip.mp4''])], getsize = Some 1024\<rparr>"

definition demo_run :: "action list" where
  "demo_run = [Start reel_request 0 0 ''a1'', Enter ''a1'' True, Hook ''a1'' half_way,
               Finish ''a1'' clip_env]"

section \<open>Verified properties\<close>

subsection \<open>Rate limiter\<close>

lemma filter_window_mono:
  assumes "t \<le> now"
  shows "filter (\<lambda>x. now - x < (w::real)) (filter (\<lambda>x. t - x < w) xs) = filter (\<lambda>x. now - x < w) xs"
  using assms by (induction xs) auto

lemma check_rate_limit_count:
  assumes "t \<le> now" "check_rate_limit cfg t c rl = (ok, rl1)"
  shows "length (filter (\<lambda>x. now - x < real_of_int (RATE_LIMIT_WINDOW cfg)) (stored_times rl1 client))
       = length (filter (\<lambda>x. now - x < real_of_int (RATE_LIMIT_WINDOW cfg)) (stored_times rl client))
         + (if ok \<and> c = client \<and> now - t < real_of_int (RATE_LIMIT_WINDOW cfg) then 1 else 0)"
  using assms(2) filter_window_mono[OF assms(1), of "real_of_int (RATE_LIMIT_WINDOW cfg)" "stored_times rl client"]
  by (auto simp: check_rate_limit_def stored_times_def Let_def split: if_splits option.splits)

lemma admitted_times_Cons:
  "admitted_times client ((t, c) # reqs) (ok # oks)
     = (if ok \<and> c = client then [t] else []) @ admitted_times client reqs oks"
  by (simp add: admitted_times_def)

lemma check_rate_limit_run_count:
  assumes "\<forall>r \<in> set reqs. fst r \<le> now" "check_rate_limit_run cfg reqs rl = (oks, rl')"
  shows "length (filter (\<lambda>x. now - x < real_of_int (RATE_LIMIT_WINDOW cfg)) (stored_times rl' client))
       = length (filter (\<lambda>x. now - x < real_of_int (RATE_LIMIT_WINDOW cfg)) (stored_times rl client))
         + length (filter (\<lambda>x. now - x < real_of_int (RATE_LIMIT_WINDOW cfg))
                          (admitted_times client reqs oks))"
  using assms
proof (induction reqs arbitrary: rl oks rl')
  case Nil
  then show ?case by (simp add: admitted_times_def)
next
  case (Cons r reqs)
  obtain t c where r: "r = (t, c)" by (cases r)
  obtain ok rl1 where one: "check_rate_limit cfg t c rl = (ok, rl1)"
    by (cases "check_rate_limit cfg t c rl")
  obtain oks1 rl2 where rest: "check_rate_limit_run cfg reqs rl1 = (oks1, rl2)"
    by (cases "check_rate_limit_run cfg reqs rl1")
  from Cons.prems(2) r one rest have oks: "oks = ok # oks1" and rl': "rl' = rl2"
    by simp_all
  from Cons.prems(1) r have t: "t \<le> now" and later: "\<forall>r \<in> set reqs. fst r \<le> now"
    by simp_all
  note ih = Cons.IH[OF later rest]
  note st = check_rate_limit_count[OF t one, of client]
  show ?case
    unfolding r oks rl' admitted_times_Cons using ih st by simp
qed

lemma check_rate_limit_verdict:
  "fst (check_rate_limit cfg now client rl)
     \<longleftrightarrow> int (length (filter (\<lambda>x. now - x < real_of_int (RATE_LIMIT_WINDOW cfg))
                              (stored_times rl client))) < RATE_LIMIT_COUNT cfg"
  by (auto simp: check_rate_limit_def stored_times_def Let_def split: option.splits)

text \<open>
  Claim C3. An admission check keeps exactly the stored times of the client that lie
  less than the window before \<open>now\<close> (an age equal to the window is dropped with the
  older ones), rejects without writing when the kept count has reached the ceiling,
  and otherwise stores the kept times followed by \<open>now\<close> and accepts. Hence, after
  any run of requests none later than \<open>now\<close>, in which the client had at least the
  ceiling of requests admitted inside the window ending at \<open>now\<close>, the request at
  \<open>now\<close> is rejected; and once every stored time of the client is at least a window
  old, the next request is admitted (the ceiling being positive) and starts a new list.
\<close>

theorem check_rate_limit_sliding_window:
  "check_rate_limit cfg now client rl =
     (let kept = filter (\<lambda>t. now - t < real_of_int (RATE_LIMIT_WINDOW cfg)) (stored_times rl client)
      in if RATE_LIMIT_COUNT cfg \<le> int (length kept) then (False, rl)
         else (True, rl(client \<mapsto> kept @ [now])))
   \<and> ((\<forall>r \<in> set reqs. fst r \<le> now)
        \<and> check_rate_limit_run cfg reqs rl = (oks, rl')
        \<and> RATE_LIMIT_COUNT cfg
             \<le> int (length (filter (\<lambda>t. now - t < real_of_int (RATE_LIMIT_WINDOW cfg))
                                    (admitted_times client reqs oks)))
       \<longrightarrow> \<not> fst (check_rate_limit cfg now client rl'))
   \<and> (0 < RATE_LIMIT_COUNT cfg
        \<and> (\<forall>t \<in> set (stored_times rl client). real_of_int (RATE_LIMIT_WINDOW cfg) \<le> now - t)
       \<longrightarrow> fst (check_rate_limit cfg now client rl)
           \<and> snd (check_rate_limit cfg now client rl) client = Some [now])"
proof (intro conjI impI)
  show "check_rate_limit cfg now client rl =
     (let kept = filter (\<lambda>t. now - t < real_of_int (RATE_LIMIT_WINDOW cfg)) (stored_times rl client)
      in if RATE_LIMIT_COUNT cfg \<le> int (length kept) then (False, rl)
         else (True, rl(client \<mapsto> kept @ [now])))"
    by (simp add: check_rate_limit_def stored_times_def Let_def)
next
  assume h: "(\<forall>r \<in> set reqs. fst r \<le> now)
        \<and> check_rate_limit_run cfg reqs rl = (oks, rl')
        \<and> RATE_LIMIT_COUNT cfg
             \<le> int (length (filter (\<lambda>t. now - t < real_of_int (RATE_LIMIT_WINDOW cfg))
                                    (admitted_times client reqs oks)))"
  from h check_rate_limit_run_count[of reqs now cfg rl oks rl' client]
  show "\<not> fst (check_rate_limit cfg now client rl')"
    unfolding check_rate_limit_verdict by linarith
next
  assume h: "0 < RATE_LIMIT_COUNT cfg
        \<and> (\<forall>t \<in> set (stored_times rl client). real_of_int (RATE_LIMIT_WINDOW cfg) \<le> now - t)"
  then have empty: "filter (\<lambda>t. now - t < real_of_int (RATE_LIMIT_WINDOW cfg)) (stored_times rl client) = []"
    by (auto simp: filter_empty_conv)
  from h empty show "fst (check_rate_limit cfg now client rl)"
    unfolding check_rate_limit_verdict by simp
  from h empty show "snd (check_rate_limit cfg now client rl) client = Some [now]"
    by (simp add: check_rate_limit_def stored_times_def Let_def)
qed

text \<open>
  The default limits: five requests a minute apart are all admitted, the sixth at
  300 s is rejected, and a request at 3840 s, a full window after the last one, is
  admitted.
\<close>

theorem check_rate_limit_sliding_window_witness:
  "list_all (\<lambda>r. fst r \<le> 300) five_then_one
   \<and> check_rate_limit_run (default_config ''downloads'') five_then_one Map.empty
       = ([True, True, True, True, True], [''10.0.0.7'' \<mapsto> [0, 60, 120, 180, 240]])
   \<and> RATE_LIMIT_COUNT (default_config ''downloads'')
       \<le> int (length (filter (\<lambda>t. 300 - t < real_of_int (RATE_LIMIT_WINDOW (default_config ''downloads'')))
                  (admitted_times ''10.0.0.7'' five_then_one [True, True, True, True, True])))
   \<and> \<not> fst (check_rate_limit (default_config ''downloads'') 300 ''10.0.0.7''
                [''10.0.0.7'' \<mapsto> [0, 60, 120, 180, 240]])
   \<and> 0 < RATE_LIMIT_COUNT (default_config ''downloads'')
   \<and> list_all (\<lambda>t. real_of_int (RATE_LIMIT_WINDOW (default_config ''downloads'')) \<le> 3840 - t)
         (stored_times [''10.0.0.7'' \<mapsto> [0, 60, 120, 180, 240]] ''10.0.0.7'')
   \<and> fst (check_rate_limit (default_config ''downloads'') 3840 ''10.0.0.7''
            [''10.0.0.7'' \<mapsto> [0, 60, 120, 180, 240]])"
proof -
  have run: "check_rate_limit_run (default_config ''downloads'') five_then_one Map.empty
       = ([True, True, True, True, True], [''10.0.0.7'' \<mapsto> [0, 60, 120, 180, 240]])"
    by (simp add: five_then_one_def check_rate_limit_def default_config_def Let_def)
  have early: "\<forall>r \<in> set five_then_one. fst r \<le> 300"
    by (simp add: five_then_one_def)
  have full: "RATE_LIMIT_COUNT (default_config ''downloads'')
       \<le> int (length (filter (\<lambda>t. 300 - t < real_of_int (RATE_LIMIT_WINDOW (default_config ''downloads'')))
                  (admitted_times ''10.0.0.7'' five_then_one [True, True, True, True, True])))"
    by (simp add: five_then_one_def admitted_times_def default_config_def)
  have pos: "0 < RATE_LIMIT_COUNT (default_config ''downloads'')"
    by (simp add: default_config_def)
  have old: "\<forall>t \<in> set (stored_times [''10.0.0.7'' \<mapsto> [0, 60, 120, 180, 240]] ''10.0.0.7'').
          real_of_int (RATE_LIMIT_WINDOW (default_config ''downloads'')) \<le> 3840 - t"
    by (simp add: stored_times_def default_config_def)
  from check_rate_limit_sliding_window
         [of "default_config ''downloads''" 300 "''10.0.0.7''" Map.empty five_then_one
             "[True, True, True, True, True]" "[''10.0.0.7'' \<mapsto> [0, 60, 120, 180, 240]]"]
       run early full
  have rej: "\<not> fst (check_rate_limit (default_config ''downloads'') 300 ''10.0.0.7''
                [''10.0.0.7'' \<mapsto> [0, 60, 120, 180, 240]])"
    by blast
  from check_rate_limit_sliding_window
         [of "default_config ''downloads''" 3840 "''10.0.0.7''"
             "[''10.0.0.7'' \<mapsto> [0, 60, 120, 180, 240]]" "[]" "[]" Map.empty]
       pos old
  have adm: "fst (check_rate_limit (default_config ''downloads'') 3840 ''10.0.0.7''
            [''10.0.0.7'' \<mapsto> [0, 60, 120, 180, 240]])"
    by blast
  from run early full rej pos old adm show ?thesis
    unfolding list_all_iff by blast
qed

lemma check_rate_limit_bounded:
  assumes "\<forall>c ts. rl c = Some ts \<longrightarrow> int (length ts) \<le> RATE_LIMIT_COUNT cfg"
  shows "\<forall>c ts. snd (check_rate_limit cfg now client rl) c = Some ts
           \<longrightarrow> int (length ts) \<le> RATE_LIMIT_COUNT cfg"
  using assms by (auto simp: check_rate_limit_def Let_def split: if_splits)

lemma check_rate_limit_run_bounded:
  assumes "\<forall>c ts. rl c = Some ts \<longrightarrow> int (length ts) \<le> RATE_LIMIT_COUNT cfg"
  shows "\<forall>c ts. snd (check_rate_limit_run cfg reqs rl) c = Some ts
           \<longrightarrow> int (length ts) \<le> RATE_LIMIT_COUNT cfg"
  using assms
proof (induction reqs arbitrary: rl)
  case Nil
  then show ?case by simp
next
  case (Cons r reqs)
  obtain t c where r: "r = (t, c)" by (cases r)
  obtain ok rl1 where one: "check_rate_limit cfg t c rl = (ok, rl1)"
    by (cases "check_rate_limit cfg t c rl")
  from check_rate_limit_bounded[OF Cons.prems, of t c] one
  have "\<forall>c ts. rl1 c = Some ts \<longrightarrow> int (length ts) \<le> RATE_LIMIT_COUNT cfg" by simp
  from Cons.IH[OF this] show ?case
    by (simp add: r one split: prod.splits)
qed

text \<open>
  Claim C10. A rejected check returns the rate-limit dict it was given, untouched:
  nothing is appended and the pruned list is not stored either. Starting from the
  empty dict, no stored list ever grows beyond the ceiling.
\<close>

theorem check_rate_limit_rejection_writes_nothing:
  "(\<not> fst (check_rate_limit cfg now client rl)
      \<longrightarrow> snd (check_rate_limit cfg now client rl) = rl)
   \<and> (snd (check_rate_limit_run cfg reqs Map.empty) c = Some ts
      \<longrightarrow> int (length ts) \<le> RATE_LIMIT_COUNT cfg)"
proof
  show "\<not> fst (check_rate_limit cfg now client rl)
      \<longrightarrow> snd (check_rate_limit cfg now client rl) = rl"
    by (simp add: check_rate_limit_def Let_def)
next
  have "\<forall>c ts. Map.empty c = Some ts \<longrightarrow> int (length (ts::real list)) \<le> RATE_LIMIT_COUNT cfg"
    by simp
  from check_rate_limit_run_bounded[OF this, of reqs]
  show "snd (check_rate_limit_run cfg reqs Map.empty) c = Some ts
      \<longrightarrow> int (length ts) \<le> RATE_LIMIT_COUNT cfg"
    by blast
qed

text \<open>
  A rejected check on a list that still holds a stale entry leaves that entry in
  place; six requests in one window leave five stored times.
\<close>

theorem check_rate_limit_rejection_writes_nothing_witness:
  "\<not> fst (check_rate_limit (default_config ''downloads'') 4005 ''10.0.0.7''
             [''10.0.0.7'' \<mapsto> [0, 4000, 4001, 4002, 4003, 4004]])
   \<and> snd (check_rate_limit (default_config ''downloads'') 4005 ''10.0.0.7''
             [''10.0.0.7'' \<mapsto> [0, 4000, 4001, 4002, 4003, 4004]])
       = [''10.0.0.7'' \<mapsto> [0, 4000, 4001, 4002, 4003, 4004]]
   \<and> snd (check_rate_limit_run (default_config ''downloads'')
             (five_then_one @ [(300, ''10.0.0.7'')]) Map.empty) ''10.0.0.7''
       = Some [0, 60, 120, 180, 240]
   \<and> int (length [0, 60, 120, 180, 240 :: real]) \<le> RATE_LIMIT_COUNT (default_config ''downloads'')"
proof -
  have rej: "\<not> fst (check_rate_limit (default_config ''downloads'') 4005 ''10.0.0.7''
             [''10.0.0.7'' \<mapsto> [0, 4000, 4001, 4002, 4003, 4004]])"
    by (simp add: check_rate_limit_def default_config_def Let_def)
  have run: "snd (check_rate_limit_run (default_config ''downloads'')
             (five_then_one @ [(300, ''10.0.0.7'')]) Map.empty) ''10.0.0.7''
       = Some [0, 60, 120, 180, 240]"
    by (simp add: five_then_one_def check_rate_limit_def default_config_def Let_def)
  from check_rate_limit_rejection_writes_nothing
         [of "default_config ''downloads''" 4005 "''10.0.0.7''"
             "[''10.0.0.7'' \<mapsto> [0, 4000, 4001, 4002, 4003, 4004]]"
             "five_then_one @ [(300, ''10.0.0.7'')]" "''10.0.0.7''" "[0, 60, 120, 180, 240]"]
       rej run
  show ?thesis by blast
qed

subsection \<open>Worker\<close>

lemma progress_only_refl: "progress_only j j"
  by (simp add: progress_only_def)

lemma progress_only_trans: "progress_only a b \<Longrightarrow> progress_only b c \<Longrightarrow> progress_only a c"
proof -
  assume ab: "progress_only a b" and bc: "progress_only b c"
  from bc have "c = b\<lparr>j_progress := j_progress c\<rparr>" by (simp add: progress_only_def)
  also from ab have "b = a\<lparr>j_progress := j_progress b\<rparr>" by (simp add: progress_only_def)
  finally show ?thesis by (simp add: progress_only_def)
qed

lemma progress_only_update: "progress_only j (j\<lparr>j_progress := p\<rparr>)"
  by (simp add: progress_only_def)

lemma tables_agree_refl: "tables_agree a a"
  unfolding tables_agree_def by (simp add: option.rel_refl progress_only_refl)

lemma tables_agree_trans: "tables_agree a b \<Longrightarrow> tables_agree b c \<Longrightarrow> tables_agree a c"
  unfolding tables_agree_def
proof
  fix k
  assume ab: "\<forall>k. rel_option progress_only (map_of a k) (map_of b k)"
    and bc: "\<forall>k. rel_option progress_only (map_of b k) (map_of c k)"
  from ab have 1: "rel_option progress_only (map_of a k) (map_of b k)" by blast
  from bc have 2: "rel_option progress_only (map_of b k) (map_of c k)" by blast
  show "rel_option progress_only (map_of a k) (map_of c k)"
    using 1 2 by (cases "map_of a k"; cases "map_of b k"; cases "map_of c k")
                 (auto intro: progress_only_trans)
qed

lemma tables_agree_update:
  assumes "map_of jobs job_id = Some j"
  shows "tables_agree jobs (AList.update job_id (j\<lparr>j_progress := p\<rparr>) jobs)"
  unfolding tables_agree_def
proof
  fix k
  show "rel_option progress_only (map_of jobs k)
          (map_of (AList.update job_id (j\<lparr>j_progress := p\<rparr>) jobs) k)"
    using assms
    by (cases "k = job_id") (simp_all add: update_conv' progress_only_update option.rel_refl progress_only_refl)
qed

lemma yt_progress_hook_agree: "tables_agree jobs (yt_progress_hook job_id d jobs)"
proof (cases "map_of jobs job_id")
  case None
  then show ?thesis by (simp add: yt_progress_hook_def tables_agree_refl)
next
  case (Some j)
  then show ?thesis
    unfolding yt_progress_hook_def Let_def
    by (simp only: option.case split: if_split) (simp add: tables_agree_update tables_agree_refl)
qed

lemma fold_yt_progress_hook_agree:
  "tables_agree jobs (fold (yt_progress_hook job_id) calls jobs)"
proof (induction calls arbitrary: jobs)
  case Nil
  show ?case by (simp add: tables_agree_refl)
next
  case (Cons d calls)
  from tables_agree_trans[OF yt_progress_hook_agree Cons.IH]
  show ?case by simp
qed

lemma tables_agree_lookup:
  assumes "tables_agree a b" "map_of a k = Some j"
  shows "\<exists>j'. map_of b k = Some j' \<and> progress_only j j'"
  using assms unfolding tables_agree_def
  by (metis option.rel_cases option.distinct(1) option.inject)

lemma set_job_Some:
  "map_of jobs job_id = Some j \<Longrightarrow> set_job job_id f jobs = Some (AList.update job_id (f j) jobs)"
  by (simp add: set_job_def)

lemma set_job_None:
  "map_of jobs job_id = None \<Longrightarrow> set_job job_id f jobs = None"
  by (simp add: set_job_def)

lemma sublist_map_iff:
  "sublist k (map f xs) \<longleftrightarrow> (\<exists>u. sublist u xs \<and> map f u = k)"
proof
  assume "sublist k (map f xs)"
  then obtain ps ss where eq: "map f xs = ps @ k @ ss" unfolding sublist_def by blast
  let ?u = "take (length k) (drop (length ps) xs)"
  have "map f ?u = take (length k) (drop (length ps) (map f xs))"
    by (simp add: take_map drop_map)
  also have "\<dots> = k" unfolding eq by simp
  finally have m: "map f ?u = k" .
  have "drop (length ps) xs = ?u @ drop (length k) (drop (length ps) xs)"
    by (simp only: append_take_drop_id)
  then have "take (length ps) xs @ drop (length ps) xs
           = take (length ps) xs @ ?u @ drop (length k) (drop (length ps) xs)"
    by (simp only:)
  then have "xs = take (length ps) xs @ ?u @ drop (length k) (drop (length ps) xs)"
    by (simp only: append_take_drop_id)
  then have "sublist ?u xs" unfolding sublist_def by blast
  with m show "\<exists>u. sublist u xs \<and> map f u = k" by blast
next
  assume "\<exists>u. sublist u xs \<and> map f u = k"
  then obtain u ps ss where "xs = ps @ u @ ss" "map f u = k" unfolding sublist_def by blast
  then have "map f xs = map f ps @ k @ map f ss" by simp
  then show "sublist k (map f xs)" unfolding sublist_def by blast
qed


lemma err_text_for_login:
  assumes "k \<in> set login_keywords" "sublist u msg" "lower u = k"
  shows "err_text_for msg
    = ''Instagram requires login for this content. Unable to download without authentication.''"
proof -
  from assms(2,3) have "sublist k (lower msg)"
    unfolding lower_def sublist_map_iff by blast
  with assms(1) show ?thesis
    unfolding err_text_for_def list_ex_iff by auto
qed


lemma run_download_job_engine_error:
  assumes present: "map_of jobs job_id = Some j"
    and eng: "engine env = Raises c msg" "is_Exception c"
    and ok: "makedirs_ok" "\<not> setup_raises env"
  shows "\<exists>j'. map_of (run_download_job cfg makedirs_ok env calls job_id fmt jobs) job_id = Some j'
            \<and> j_status j' = Error \<and> j_error j' = Some (err_text_for msg)"
proof -
  let ?run = "j\<lparr>j_temp_dir := Some (path_join (BASE_DOWNLOAD_DIR cfg) job_id),
               j_status := Running, j_progress := PStarted\<rparr>"
  let ?running = "AList.update job_id ?run jobs"
  let ?during = "fold (yt_progress_hook job_id) calls ?running"
  have enter: "run_download_job_enter cfg job_id jobs = Some ?running"
    using present by (simp add: run_download_job_enter_def set_job_Some)
  have "map_of ?running job_id = Some ?run" by (simp add: update_conv')
  from tables_agree_lookup[OF fold_yt_progress_hook_agree this]
  obtain j2 where during: "map_of ?during job_id = Some j2"
    by blast
  have fin: "run_download_job_finish env job_id fmt ?during
      = Some (AList.update job_id (j2\<lparr>j_status := Error, j_error := Some (err_text_for msg)\<rparr>) ?during)"
    using eng ok during
    by (simp add: run_download_job_finish_def in_try_def mark_error_def set_job_Some)
  have "run_download_job cfg makedirs_ok env calls job_id fmt jobs
      = AList.update job_id (j2\<lparr>j_status := Error, j_error := Some (err_text_for msg)\<rparr>) ?during"
    using ok by (simp add: run_download_job_def enter fin)
  then show ?thesis by (simp add: update_conv')
qed

text \<open>
  Claim C7. When the engine call of a job still in the table raises an exception
  (of a class under \<^verbatim>\<open>Exception\<close>) whose text contains, in any letter case, one of
  the login keywords, the run ends with the job in status \<^verbatim>\<open>error\<close> and the
  message that Instagram requires login, not the generic failure message. The text
  contains \<open>k\<close> in any letter case when some part \<open>u\<close> of it lower-cases to \<open>k\<close>.
\<close>

theorem run_download_job_login_message:
  assumes "map_of jobs job_id = Some j"
    and "makedirs_ok" and "\<not> setup_raises env"
    and "engine env = Raises c msg" and "is_Exception c"
    and "k \<in> set login_keywords" and "sublist u msg" and "lower u = k"
  shows "\<exists>j'. map_of (run_download_job cfg makedirs_ok env calls job_id fmt jobs) job_id = Some j'
            \<and> j_status j' = Error
            \<and> j_error j' = Some ''Instagram requires login for this content. Unable to download without authentication.''
            \<and> j_error j' \<noteq> Some ''Failed to download media. The URL may be private or invalid.''"
proof -
  from run_download_job_engine_error[OF assms(1,4,5,2,3)]
  obtain j' where "map_of (run_download_job cfg makedirs_ok env calls job_id fmt jobs) job_id = Some j'"
    "j_status j' = Error" "j_error j' = Some (err_text_for msg)"
    by blast
  with err_text_for_login[OF assms(6,7,8)] show ?thesis by simp
qed

subsection \<open>Submission\<close>





text \<open>
  Claim C1. \<^verbatim>\<open>check_concurrent_limit\<close> is defined but \<^verbatim>\<open>start\<close> never calls it. A
  client with three queued jobs, for whom the check answers no under the default cap
  of 3, submits a valid URL with rate budget left: the job is created and the client
  holds four queued jobs.
\<close>

theorem start_ignores_concurrent_limit:
  "\<not> check_concurrent_limit (default_config ''downloads'') ''10.0.0.7'' three_queued
   \<and> fst (start urlparse_plain (default_config ''downloads'') reel_request 200 200 ''a4''
             three_queued [''10.0.0.7'' \<mapsto> [0, 60, 120]]) = JobCreated ''a4''
   \<and> map (\<lambda>(k, j). (k, j_ip j, j_status j))
         (fst (snd (start urlparse_plain (default_config ''downloads'') reel_request 200 200 ''a4''
                      three_queued [''10.0.0.7'' \<mapsto> [0, 60, 120]])))
       = [(''a1'', ''10.0.0.7'', Queued), (''a2'', ''10.0.0.7'', Queued),
          (''a3'', ''10.0.0.7'', Queued), (''a4'', ''10.0.0.7'', Queued)]"
  by (simp add: check_concurrent_limit_def start_def is_valid_instagram_url_def urlparse_plain_def
        lower_def lower_char_def Let_def suffix_to_prefix reel_request_def default_config_def
        truthy_def py_or_def three_queued_def queued_job_def get_client_ip_def
        check_rate_limit_def)

text \<open>
  Claim C2. The handler for \<^verbatim>\<open>FileNotFoundError\<close> comes after
  \<^verbatim>\<open>except Exception\<close>, which catches that class too. A job whose engine call raises
  \<^verbatim>\<open>FileNotFoundError\<close> for the missing transcoder ends in status \<^verbatim>\<open>error\<close>
  with the generic failure message, not the ffmpeg one.
\<close>

theorem run_download_job_missing_ffmpeg:
  "map (\<lambda>(k, j). (k, j_status j, j_error j))
     (run_download_job (default_config ''downloads'') True
        (engine_raises FileNotFoundError ''[Errno 2] No such file or directory: ffmpeg'') []
        ''a1'' ''audio'' [(''a1'', queued_job ''a1'' ''10.0.0.7'')])
   = [(''a1'', Error, Some ''Failed to download media. The URL may be private or invalid.'')]"
  by (simp add: run_download_job_def run_download_job_enter_def run_download_job_finish_def
        set_job_def engine_raises_def is_Exception_def in_try_def mark_error_def
        err_text_for_def login_keywords_def lower_def lower_char_def sublist_Cons_right
        queued_job_def Let_def)

text \<open>An engine error \<^verbatim>\<open>HTTP Error 403: Forbidden\<close> gives the login message.\<close>

theorem run_download_job_login_message_witness:
  "map_of [(''a1'', queued_job ''a1'' ''10.0.0.7'')] ''a1'' = Some (queued_job ''a1'' ''10.0.0.7'')
   \<and> engine (engine_raises OtherException ''ERROR: HTTP Error 403: Forbidden'')
       = Raises OtherException ''ERROR: HTTP Error 403: Forbidden''
   \<and> is_Exception OtherException
   \<and> ''forbidden'' \<in> set login_keywords
   \<and> sublist ''Forbidden'' ''ERROR: HTTP Error 403: Forbidden''
   \<and> lower ''Forbidden'' = ''forbidden''
   \<and> (\<exists>j'. map_of (run_download_job (default_config ''downloads'') True
                      (engine_raises OtherException ''ERROR: HTTP Error 403: Forbidden'') []
                      ''a1'' ''mp4'' [(''a1'', queued_job ''a1'' ''10.0.0.7'')]) ''a1'' = Some j'
          \<and> j_status j' = Error
          \<and> j_error j' = Some ''Instagram requires login for this content. Unable to download without authentication.'')"
proof -
  have 1: "map_of [(''a1'', queued_job ''a1'' ''10.0.0.7'')] ''a1'' = Some (queued_job ''a1'' ''10.0.0.7'')"
    by simp
  have 2: "\<not> setup_raises (engine_raises OtherException ''ERROR: HTTP Error 403: Forbidden'')"
    by (simp add: engine_raises_def)
  have 3: "engine (engine_raises OtherException ''ERROR: HTTP Error 403: Forbidden'')
       = Raises OtherException ''ERROR: HTTP Error 403: Forbidden''"
    by (simp add: engine_raises_def)
  have 4: "is_Exception OtherException" by (simp add: is_Exception_def)
  have 5: "''forbidden'' \<in> set login_keywords" by (simp add: login_keywords_def)
  have 6: "sublist ''Forbidden'' ''ERROR: HTTP Error 403: Forbidden''"
    by (simp add: sublist_Cons_right)
  have 7: "lower ''Forbidden'' = ''forbidden''" by (simp add: lower_def lower_char_def)
  from run_download_job_login_message[OF 1 TrueI 2 3 4 5 6 7, of "default_config ''downloads''" "[]" "''mp4''"]
       1 3 4 5 6 7
  show ?thesis by blast
qed

text \<open>The submission of the fourth job is answered with its identifier.\<close>

theorem start_ignores_concurrent_limit_witness:
  "fst (start urlparse_plain (default_config ''downloads'') reel_request 200 200 ''a4''
          three_queued [''10.0.0.7'' \<mapsto> [0, 60, 120]]) = JobCreated ''a4''"
  using start_ignores_concurrent_limit by blast

text \<open>The job's message is not the one for the missing transcoder.\<close>

theorem run_download_job_missing_ffmpeg_witness:
  "map (\<lambda>(k, j). (k, j_status j, j_error j))
     (run_download_job (default_config ''downloads'') True
        (engine_raises FileNotFoundError ''[Errno 2] No such file or directory: ffmpeg'') []
        ''a1'' ''audio'' [(''a1'', queued_job ''a1'' ''10.0.0.7'')])
   \<noteq> [(''a1'', Error, Some ''ffmpeg not found or not executable. Please install ffmpeg.'')]"
  unfolding run_download_job_missing_ffmpeg by simp

subsection \<open>Progress stream\<close>

lemma payload_closes_iff: "payload_closes (events_payload job_id jobs) \<longleftrightarrow> job_is_over job_id jobs"
  by (simp add: events_payload_def job_is_over_def split: option.splits)

lemma sse_inject: "sse a = sse b \<longleftrightarrow> a = b"
  by (simp add: sse_def)

lemma gen_distinct_adj:
  "distinct_adj (case prev of None \<Rightarrow> fst (gen dumps job_id prev polls)
                 | Some p \<Rightarrow> sse p # fst (gen dumps job_id prev polls))"
proof (induction polls arbitrary: prev)
  case Nil
  show ?case by (simp split: option.splits)
next
  case (Cons jobs later)
  let ?s = "dumps (events_payload job_id jobs)"
  show ?case
  proof (cases "Some ?s = prev")
    case True
    with Cons.IH[of prev] show ?thesis
      by (simp add: Let_def case_prod_beta split: option.splits)
  next
    case False
    with Cons.IH[of "Some ?s"] show ?thesis
      by (simp add: Let_def sse_inject case_prod_beta split: option.splits)
  qed
qed

lemma gen_closed_iff:
  "snd (gen dumps job_id prev polls) \<longleftrightarrow> (\<exists>jobs \<in> set polls. job_is_over job_id jobs)"
proof (induction polls arbitrary: prev)
  case Nil
  show ?case by simp
next
  case (Cons jobs later)
  obtain out fin where g: "gen dumps job_id
        (if Some (dumps (events_payload job_id jobs)) \<noteq> prev
         then Some (dumps (events_payload job_id jobs)) else prev) later = (out, fin)"
    by (cases "gen dumps job_id
        (if Some (dumps (events_payload job_id jobs)) \<noteq> prev
         then Some (dumps (events_payload job_id jobs)) else prev) later")
  from Cons.IH[of "if Some (dumps (events_payload job_id jobs)) \<noteq> prev
         then Some (dumps (events_payload job_id jobs)) else prev"] g
  have "fin \<longleftrightarrow> (\<exists>jobs \<in> set later. job_is_over job_id jobs)" by simp
  with g show ?case
    by (simp add: Let_def payload_closes_iff)
qed

lemma gen_stops:
  assumes "job_is_over job_id jobs"
  shows "gen dumps job_id prev (pre @ jobs # post) = gen dumps job_id prev (pre @ [jobs])"
proof (induction pre arbitrary: prev)
  case Nil
  from assms show ?case by (simp add: Let_def payload_closes_iff)
next
  case (Cons a pre)
  then show ?case by (simp add: Let_def)
qed

lemma gen_unknown_last:
  assumes dumps: "\<forall>st pr e f sz. dumps (Snapshot st pr e f sz) \<noteq> dumps Unknown"
    and pre: "\<forall>t \<in> set pre. \<not> job_is_over job_id t"
    and absent: "map_of jobs job_id = None"
    and prev: "prev \<noteq> Some (dumps Unknown)"
  shows "gen dumps job_id prev (pre @ [jobs])
           = (fst (gen dumps job_id prev pre) @ [sse (dumps Unknown)], True)
         \<and> sse (dumps Unknown) \<notin> set (fst (gen dumps job_id prev pre))"
  using pre prev
proof (induction pre arbitrary: prev)
  case Nil
  with absent show ?case by (auto simp: Let_def events_payload_def)
next
  case (Cons a pre)
  from Cons.prems(1) have a: "\<not> job_is_over job_id a" and rest: "\<forall>t \<in> set pre. \<not> job_is_over job_id t"
    by simp_all
  from a obtain st pr e f sz where pa: "events_payload job_id a = Snapshot st pr e f sz"
    by (auto simp: events_payload_def job_is_over_def split: option.splits)
  from a have nc: "\<not> payload_closes (events_payload job_id a)"
    by (simp add: payload_closes_iff)
  from dumps pa have ne: "dumps (events_payload job_id a) \<noteq> dumps Unknown" by simp
  let ?s = "dumps (events_payload job_id a)"
  show ?case
  proof (cases "Some ?s = prev")
    case True
    with Cons.IH[OF rest Cons.prems(2)] nc show ?thesis
      by (simp add: Let_def case_prod_beta)
  next
    case False
    from ne have "Some ?s \<noteq> Some (dumps Unknown)" by simp
    from Cons.IH[OF rest this] nc False ne show ?thesis
      by (simp add: Let_def sse_inject case_prod_beta)
  qed
qed

text \<open>
  Claim C8. Over any sequence of polls, two events yielded one after the other are
  never equal; the generator has finished exactly when some poll saw the job over
  (status \<^verbatim>\<open>ready\<close> or \<^verbatim>\<open>error\<close>, or no record); nothing after the first such
  poll is read; and when every earlier poll saw the job not over and this one finds
  no record, the stream is what the earlier polls yielded followed by the one
  \<^verbatim>\<open>unknown\<close> snapshot, which none of the earlier events is (the serialiser never
  writes a job's snapshot as it writes \<^verbatim>\<open>{'status': 'unknown'}\<close>).
\<close>

theorem events_stream:
  "distinct_adj (fst (events dumps job_id polls))
   \<and> (snd (events dumps job_id polls) \<longleftrightarrow> (\<exists>jobs \<in> set polls. job_is_over job_id jobs))
   \<and> (job_is_over job_id jobs
        \<longrightarrow> events dumps job_id (pre @ jobs # post) = events dumps job_id (pre @ [jobs]))
   \<and> ((\<forall>st pr e f sz. dumps (Snapshot st pr e f sz) \<noteq> dumps Unknown)
        \<and> (\<forall>t \<in> set pre. \<not> job_is_over job_id t) \<and> map_of jobs job_id = None
        \<longrightarrow> events dumps job_id (pre @ jobs # post)
              = (fst (events dumps job_id pre) @ [sse (dumps Unknown)], True)
            \<and> sse (dumps Unknown) \<notin> set (fst (events dumps job_id pre)))"
proof (intro conjI impI)
  show "distinct_adj (fst (events dumps job_id polls))"
    using gen_distinct_adj[where prev = None and dumps = dumps and job_id = job_id and polls = polls] by (simp add: events_def)
  show "snd (events dumps job_id polls) \<longleftrightarrow> (\<exists>jobs \<in> set polls. job_is_over job_id jobs)"
    by (simp add: events_def gen_closed_iff)
  show "events dumps job_id (pre @ jobs # post) = events dumps job_id (pre @ [jobs])"
    if "job_is_over job_id jobs"
    using gen_stops[OF that] by (simp add: events_def)
next
  assume h: "(\<forall>st pr e f sz. dumps (Snapshot st pr e f sz) \<noteq> dumps Unknown)
        \<and> (\<forall>t \<in> set pre. \<not> job_is_over job_id t) \<and> map_of jobs job_id = None"
  then have over: "job_is_over job_id jobs" by (simp add: job_is_over_def)
  have "None \<noteq> Some (dumps Unknown)" by simp
  from gen_unknown_last[where dumps = dumps and pre = pre and job_id = job_id and jobs = jobs
                          and prev = None] h
  have u: "gen dumps job_id None (pre @ [jobs])
           = (fst (gen dumps job_id None pre) @ [sse (dumps Unknown)], True)
         \<and> sse (dumps Unknown) \<notin> set (fst (gen dumps job_id None pre))"
    by simp
  from u gen_stops[OF over, where dumps = dumps and prev = None and pre = pre and post = post]
  show "events dumps job_id (pre @ jobs # post)
              = (fst (events dumps job_id pre) @ [sse (dumps Unknown)], True)"
    by (simp add: events_def)
  from u show "sse (dumps Unknown) \<notin> set (fst (events dumps job_id pre))"
    by (simp add: events_def)
qed

text \<open>
  A job seen queued, then running twice, then gone: three events, the last one
  \<^verbatim>\<open>unknown\<close>, and the poll after the removal is never made.
\<close>

theorem events_stream_witness:
  "list_all (\<lambda>t. \<not> job_is_over ''a1'' t) seen_before_removal
   \<and> map_of ([] :: jobs) ''a1'' = None
   \<and> job_is_over ''a1'' []
   \<and> events dumps_status ''a1''
         (seen_before_removal @ [] # [[(''a1'', running_job ''a1'' ''10.0.0.7'')]])
       = ([sse ''queued'', sse ''running'', sse ''unknown''], True)
   \<and> distinct_adj (fst (events dumps_status ''a1''
         (seen_before_removal @ [] # [[(''a1'', running_job ''a1'' ''10.0.0.7'')]])))
   \<and> snd (events dumps_status ''a1''
         (seen_before_removal @ [] # [[(''a1'', running_job ''a1'' ''10.0.0.7'')]]))"
proof -
  have d: "\<forall>st pr e f sz. dumps_status (Snapshot st pr e f sz) \<noteq> dumps_status Unknown"
    by (simp add: dumps_status_def split: status.splits)
  have p: "\<forall>t \<in> set seen_before_removal. \<not> job_is_over ''a1'' t"
    by (simp add: seen_before_removal_def job_is_over_def queued_job_def running_job_def)
  have a: "map_of ([] :: jobs) ''a1'' = None" by simp
  have o: "job_is_over ''a1'' []" by (simp add: job_is_over_def)
  have e: "fst (events dumps_status ''a1'' seen_before_removal) = [sse ''queued'', sse ''running'']"
    by (simp add: events_def events_payload_def dumps_status_def queued_job_def running_job_def
          seen_before_removal_def Let_def)
  note t = events_stream[where dumps = dumps_status and job_id = "''a1''" and jobs = "[]"
             and pre = seen_before_removal and post = "[[(''a1'', running_job ''a1'' ''10.0.0.7'')]]"
             and polls = "seen_before_removal @ [] # [[(''a1'', running_job ''a1'' ''10.0.0.7'')]]"]
  from t d p a have 1: "events dumps_status ''a1''
         (seen_before_removal @ [] # [[(''a1'', running_job ''a1'' ''10.0.0.7'')]])
       = ([sse ''queued'', sse ''running'', sse ''unknown''], True)"
    by (simp add: e dumps_status_def)
  from t have 2: "distinct_adj (fst (events dumps_status ''a1''
         (seen_before_removal @ [] # [[(''a1'', running_job ''a1'' ''10.0.0.7'')]])))"
    by blast
  from 1 have 3: "snd (events dumps_status ''a1''
         (seen_before_removal @ [] # [[(''a1'', running_job ''a1'' ''10.0.0.7'')]]))"
    by simp
  from p a o 1 2 3 show ?thesis unfolding list_all_iff by blast
qed

subsection \<open>Janitor\<close>

lemma clear_jobs_filter:
  "clear_jobs pth jobs = filter (\<lambda>(jid, j). \<not> names_job pth j) jobs"
  by (simp add: clear_jobs_def names_job_def)

lemma clean_entry_eq:
  "clean_entry cfg cutoff e (kept, jobs) =
     (if entry_old cutoff e \<and> e_removable e then kept else kept @ [e],
      if entry_old cutoff e \<and> (e_isdir e \<or> e_removable e)
      then clear_jobs (entry_path cfg e) jobs else jobs)"
  by (simp add: clean_entry_def entry_old_def entry_path_def Let_def split: option.splits)

lemma fold_clean_entry:
  "fold (clean_entry cfg cutoff) es (kept, jobs) =
     (kept @ filter (\<lambda>e. \<not> (entry_old cutoff e \<and> e_removable e)) es,
      filter (\<lambda>(jid, j). list_all (\<lambda>e. \<not> names_job (entry_path cfg e) j)
                             (filter (\<lambda>e. entry_old cutoff e \<and> (e_isdir e \<or> e_removable e)) es))
        jobs)"
proof (induction es arbitrary: kept jobs)
  case Nil
  show ?case by simp
next
  case (Cons e es)
  show ?case
    unfolding fold_simps clean_entry_eq Cons.IH
    by (auto simp: clear_jobs_filter intro!: filter_cong)
qed

lemma entry_path_plain:
  assumes "CHR ''/'' \<notin> set (e_name e)"
  shows "entry_path cfg e = base_prefix cfg @ e_name e"
proof -
  from assms have "\<not> prefix ''/'' (e_name e)"
    by (cases "e_name e") auto
  then show ?thesis
    by (simp add: entry_path_def path_join_def base_prefix_def)
qed

lemma prefix_name_under:
  assumes "prefix n (m @ ''/'' @ rest)" and "CHR ''/'' \<notin> set n"
  shows "prefix n m"
proof -
  from assms(1) have "prefix n m \<or> (\<exists>us. n = m @ us \<and> us \<noteq> [] \<and> prefix us (''/'' @ rest))"
    by (auto simp: prefix_append)
  then show ?thesis
  proof
    assume "prefix n m" then show ?thesis .
  next
    assume "\<exists>us. n = m @ us \<and> us \<noteq> [] \<and> prefix us (''/'' @ rest)"
    then obtain us where n: "n = m @ us" and ne: "us \<noteq> []" and pu: "prefix us (''/'' @ rest)"
      by blast
    from ne pu have "hd us = CHR ''/''"
      by (cases us) (auto simp: prefix_Cons)
    with ne have "CHR ''/'' \<in> set us" by (cases us) auto
    with n assms(2) show ?thesis by simp
  qed
qed

lemma names_job_foreign:
  assumes slash: "CHR ''/'' \<notin> set (e_name d)" "CHR ''/'' \<notin> set (e_name y)"
    and np: "\<not> prefix (e_name d) (e_name y)"
    and td: "j_temp_dir j = None \<or> j_temp_dir j = Some (entry_path cfg y)"
    and fp: "j_filepath j = None \<or> (\<exists>rest. j_filepath j = Some (entry_path cfg y @ ''/'' @ rest))"
  shows "\<not> names_job (entry_path cfg d) j"
proof
  assume nj: "names_job (entry_path cfg d) j"
  note pd = entry_path_plain[OF slash(1), of cfg]
  note py = entry_path_plain[OF slash(2), of cfg]
  from nj consider (t) "j_temp_dir j = Some (entry_path cfg d)"
    | (f) "prefix (entry_path cfg d) (case j_filepath j of None \<Rightarrow> [] | Some p \<Rightarrow> p)"
    unfolding names_job_def by blast
  then show False
  proof cases
    case t
    with td have "entry_path cfg d = entry_path cfg y" by auto
    then have "e_name d = e_name y" unfolding pd py by simp
    with np show False by simp
  next
    case f
    from fp show False
    proof
      assume "j_filepath j = None"
      with f have "entry_path cfg d = []" by simp
      then have "e_name d = []" unfolding pd by simp
      with np show False by simp
    next
      assume "\<exists>rest. j_filepath j = Some (entry_path cfg y @ ''/'' @ rest)"
      then obtain rest where "j_filepath j = Some (entry_path cfg y @ ''/'' @ rest)" by blast
      with f have "prefix (base_prefix cfg @ e_name d) (base_prefix cfg @ e_name y @ ''/'' @ rest)"
        unfolding pd py by simp
      then have "prefix (e_name d) (e_name y @ ''/'' @ rest)" by simp
      from prefix_name_under[OF this slash(1)] np show False by simp
    qed
  qed
qed

text \<open>
  Claim C9, as amended. In a sweep whose listing of the download root succeeds:
  every entry older than the 30-minute window whose removal succeeds is gone from
  the root; for every such old entry that is a directory or was removed, every job
  record whose working directory is that entry, or whose result path lies under
  it, is gone from the table; every entry not older than the window stays in the
  root; and the job record of such an entry stays in the table, provided entry
  names hold no separator and no old entry's name is a prefix of that entry's name
  (as among job directories, all named by identifiers of one length).
\<close>

theorem background_cleaner_sweep:
  assumes "background_cleaner cfg now True entries jobs = (left, jobs')"
  shows
    "(e \<in> set entries \<and> entry_old (now - 30 * 60) e \<and> e_removable e \<longrightarrow> e \<notin> set left)
     \<and> (e \<in> set entries \<and> entry_old (now - 30 * 60) e \<and> (e_isdir e \<or> e_removable e)
          \<and> (j_temp_dir j = Some (entry_path cfg e)
               \<or> (\<exists>rest. j_filepath j = Some (entry_path cfg e @ ''/'' @ rest)))
         \<longrightarrow> (jid, j) \<notin> set jobs')
     \<and> (y \<in> set entries \<and> \<not> entry_old (now - 30 * 60) y \<longrightarrow> y \<in> set left)
     \<and> (y \<in> set entries \<and> \<not> entry_old (now - 30 * 60) y
          \<and> (\<forall>d \<in> set entries. CHR ''/'' \<notin> set (e_name d))
          \<and> (\<forall>d \<in> set entries. entry_old (now - 30 * 60) d \<longrightarrow> \<not> prefix (e_name d) (e_name y))
          \<and> (jid', j') \<in> set jobs
          \<and> (j_temp_dir j' = None \<or> j_temp_dir j' = Some (entry_path cfg y))
          \<and> (j_filepath j' = None
               \<or> (\<exists>rest. j_filepath j' = Some (entry_path cfg y @ ''/'' @ rest)))
         \<longrightarrow> (jid', j') \<in> set jobs')"
proof -
  let ?cutoff = "now - 30 * 60"
  let ?swept = "filter (\<lambda>e. entry_old ?cutoff e \<and> (e_isdir e \<or> e_removable e)) entries"
  from assms have left: "left = filter (\<lambda>e. \<not> (entry_old ?cutoff e \<and> e_removable e)) entries"
    and jobs': "jobs' = filter (\<lambda>(jid, j). list_all (\<lambda>e. \<not> names_job (entry_path cfg e) j) ?swept) jobs"
    by (simp_all add: background_cleaner_def Let_def fold_clean_entry)
  have 1: "e \<in> set entries \<and> entry_old ?cutoff e \<and> e_removable e \<longrightarrow> e \<notin> set left"
    unfolding left by simp
  have 2: "e \<in> set entries \<and> entry_old ?cutoff e \<and> (e_isdir e \<or> e_removable e)
          \<and> (j_temp_dir j = Some (entry_path cfg e)
               \<or> (\<exists>rest. j_filepath j = Some (entry_path cfg e @ ''/'' @ rest)))
         \<longrightarrow> (jid, j) \<notin> set jobs'"
  proof
    assume h: "e \<in> set entries \<and> entry_old ?cutoff e \<and> (e_isdir e \<or> e_removable e)
          \<and> (j_temp_dir j = Some (entry_path cfg e)
               \<or> (\<exists>rest. j_filepath j = Some (entry_path cfg e @ ''/'' @ rest)))"
    then have "names_job (entry_path cfg e) j"
      unfolding names_job_def by auto
    moreover from h have "e \<in> set ?swept" by simp
    ultimately have "\<not> list_all (\<lambda>e. \<not> names_job (entry_path cfg e) j) ?swept"
      unfolding list_all_iff by blast
    then show "(jid, j) \<notin> set jobs'" unfolding jobs' by simp
  qed
  have 3: "y \<in> set entries \<and> \<not> entry_old ?cutoff y \<longrightarrow> y \<in> set left"
    unfolding left by simp
  have 4: "y \<in> set entries \<and> \<not> entry_old ?cutoff y
          \<and> (\<forall>d \<in> set entries. CHR ''/'' \<notin> set (e_name d))
          \<and> (\<forall>d \<in> set entries. entry_old ?cutoff d \<longrightarrow> \<not> prefix (e_name d) (e_name y))
          \<and> (jid', j') \<in> set jobs
          \<and> (j_temp_dir j' = None \<or> j_temp_dir j' = Some (entry_path cfg y))
          \<and> (j_filepath j' = None
               \<or> (\<exists>rest. j_filepath j' = Some (entry_path cfg y @ ''/'' @ rest)))
         \<longrightarrow> (jid', j') \<in> set jobs'"
  proof
    assume h: "y \<in> set entries \<and> \<not> entry_old ?cutoff y
          \<and> (\<forall>d \<in> set entries. CHR ''/'' \<notin> set (e_name d))
          \<and> (\<forall>d \<in> set entries. entry_old ?cutoff d \<longrightarrow> \<not> prefix (e_name d) (e_name y))
          \<and> (jid', j') \<in> set jobs
          \<and> (j_temp_dir j' = None \<or> j_temp_dir j' = Some (entry_path cfg y))
          \<and> (j_filepath j' = None
               \<or> (\<exists>rest. j_filepath j' = Some (entry_path cfg y @ ''/'' @ rest)))"
    have "\<not> names_job (entry_path cfg d) j'" if d: "d \<in> set ?swept" for d
    proof -
      from d have oe: "d \<in> set entries" and old: "entry_old ?cutoff d" by simp_all
      from h oe old have np: "\<not> prefix (e_name d) (e_name y)" by blast
      from h oe have s1: "CHR ''/'' \<notin> set (e_name d)" by blast
      from h have s2: "CHR ''/'' \<notin> set (e_name y)" by blast
      from h have td: "j_temp_dir j' = None \<or> j_temp_dir j' = Some (entry_path cfg y)" by blast
      from h have fp: "j_filepath j' = None
               \<or> (\<exists>rest. j_filepath j' = Some (entry_path cfg y @ ''/'' @ rest))" by blast
      from names_job_foreign[OF s1 s2 np td fp] show ?thesis .
    qed
    then have "list_all (\<lambda>e. \<not> names_job (entry_path cfg e) j') ?swept"
      unfolding list_all_iff by blast
    with h show "(jid', j') \<in> set jobs'" unfolding jobs' by simp
  qed
  from 1 2 3 4 show ?thesis by blast
qed

lemmas example_defs =
  srv_def default_config_def old_dir_def young_dir_def stuck_dir_def old_file_def two_ready_def
  ready_job_def queued_job_def

text \<open>
  A sweep at 10000 s over an old and a young job directory: the old directory and
  its job record go, the young directory and its job record stay.
\<close>

theorem background_cleaner_sweep_witness:
  "entry_old (10000 - 30 * 60) old_dir
   \<and> \<not> entry_old (10000 - 30 * 60) young_dir
   \<and> old_dir \<notin> set (fst (background_cleaner srv 10000 True [old_dir, young_dir] two_ready))
   \<and> (''a1'', ready_job ''a1'' ''10.0.0.7'' ''/srv/downloads/a1'')
        \<notin> set (snd (background_cleaner srv 10000 True [old_dir, young_dir] two_ready))
   \<and> young_dir \<in> set (fst (background_cleaner srv 10000 True [old_dir, young_dir] two_ready))
   \<and> (''b2'', ready_job ''b2'' ''10.0.0.7'' ''/srv/downloads/b2'')
        \<in> set (snd (background_cleaner srv 10000 True [old_dir, young_dir] two_ready))"
proof -
  let ?bc = "background_cleaner srv 10000 True [old_dir, young_dir] two_ready"
  let ?ja = "ready_job ''a1'' ''10.0.0.7'' ''/srv/downloads/a1''"
  let ?jb = "ready_job ''b2'' ''10.0.0.7'' ''/srv/downloads/b2''"
  have bc: "?bc = (fst ?bc, snd ?bc)" by simp
  have o: "entry_old (10000 - 30 * 60) old_dir"
    and y: "\<not> entry_old (10000 - 30 * 60) young_dir"
    by (simp_all add: entry_old_def example_defs)
  have r: "e_removable old_dir" "e_isdir old_dir" by (simp_all add: example_defs)
  have m: "old_dir \<in> set [old_dir, young_dir]" "young_dir \<in> set [old_dir, young_dir]"
    "(''b2'', ?jb) \<in> set two_ready"
    by (simp_all add: two_ready_def)
  have pa: "entry_path srv old_dir = ''/srv/downloads/a1''"
    and pb: "entry_path srv young_dir = ''/srv/downloads/b2''"
    by (simp_all add: entry_path_def path_join_def example_defs suffix_to_prefix)
  have ta: "j_temp_dir ?ja = Some (entry_path srv old_dir)"
    and tb: "j_temp_dir ?jb = Some (entry_path srv young_dir)"
    unfolding pa pb by (simp_all add: example_defs)
  have fb: "\<exists>rest. j_filepath ?jb = Some (entry_path srv young_dir @ ''/'' @ rest)"
    unfolding pb by (rule exI[of _ "''clip.mp4''"]) (simp add: example_defs)
  have sl: "\<forall>d \<in> set [old_dir, young_dir]. CHR ''/'' \<notin> set (e_name d)"
    by (simp add: example_defs)
  have np: "\<forall>d \<in> set [old_dir, young_dir].
              entry_old (10000 - 30 * 60) d \<longrightarrow> \<not> prefix (e_name d) (e_name young_dir)"
    by (simp add: entry_old_def example_defs)
  note t = background_cleaner_sweep[OF bc, where e = old_dir and jid = "''a1''" and j = ?ja
             and y = young_dir and jid' = "''b2''" and j' = ?jb]
  from t o r m(1) have 1: "old_dir \<notin> set (fst ?bc)" by blast
  from t o r m(1) ta have 2: "(''a1'', ?ja) \<notin> set (snd ?bc)" by blast
  from t y m(2) have 3: "young_dir \<in> set (fst ?bc)" by blast
  from t y m(2,3) sl np tb fb have 4: "(''b2'', ?jb) \<in> set (snd ?bc)" by blast
  from o y 1 2 3 4 show ?thesis by blast
qed

text \<open>
  Claim C9 as stated fails: an old directory that \<^verbatim>\<open>shutil.rmtree\<close> cannot remove
  stays in the root, its errors being ignored, while its job record is dropped.
\<close>

theorem background_cleaner_keeps_stuck_entry:
  "entry_old (10000 - 30 * 60) stuck_dir
   \<and> background_cleaner srv 10000 True [stuck_dir, young_dir] two_ready
       = ([stuck_dir, young_dir], [(''b2'', ready_job ''b2'' ''10.0.0.7'' ''/srv/downloads/b2'')])"
  by (simp add: background_cleaner_def clean_entry_def clear_jobs_def entry_old_def path_join_def
        suffix_to_prefix example_defs Let_def)

text \<open>
  Where the proviso on names matters: the test of line 192 compares strings, so
  deleting an old file named \<^verbatim>\<open>b\<close> also drops the record of the young directory
  \<^verbatim>\<open>b2\<close>.
\<close>

lemma background_cleaner_prefix_collision:
  "\<not> entry_old (10000 - 30 * 60) young_dir
   \<and> background_cleaner srv 10000 True [old_file, young_dir] two_ready
       = ([young_dir], [(''a1'', ready_job ''a1'' ''10.0.0.7'' ''/srv/downloads/a1'')])"
  by (simp add: background_cleaner_def clean_entry_def clear_jobs_def entry_old_def path_join_def
        suffix_to_prefix example_defs Let_def)

subsection \<open>Job lifecycle\<close>

lemma follows_remdups_adj:
  "follows a xs \<Longrightarrow>
     remdups_adj (a # xs) \<in>
       (case a of
          Queued \<Rightarrow> {[Queued], [Queued, Running], [Queued, Running, Ready], [Queued, Running, Error]}
        | Running \<Rightarrow> {[Running], [Running, Ready], [Running, Error]}
        | Ready \<Rightarrow> {[Ready]}
        | Error \<Rightarrow> {[Error]})"
proof (induction xs arbitrary: a)
  case Nil
  show ?case by (cases a) simp_all
next
  case (Cons b xs)
  from Cons.prems have m: "ok_move a b" and f: "follows b xs" by simp_all
  from Cons.IH[OF f] m show ?case
    by (cases a; cases b) (simp_all add: ok_move_def)
qed

lemma lifecycle_remdups_adj:
  "lifecycle xs \<Longrightarrow>
     remdups_adj xs \<in> {[], [Queued], [Queued, Running], [Queued, Running, Ready],
                        [Queued, Running, Error]}"
proof (cases xs)
  case Nil
  then show ?thesis by simp
next
  case (Cons a ys)
  assume w: "lifecycle xs"
  from w Cons have a: "a = Queued" and f: "follows a ys" by auto
  from follows_remdups_adj[OF f] a Cons show ?thesis by simp
qed

lemma find_produced_nonempty: "find_produced ext w = Some p \<Longrightarrow> p \<noteq> []"
  by (induction ext w rule: find_produced.induct) (auto split: option.splits if_splits)


lemma start_cases:
  assumes "start up cfg req now created uuid jobs rl = (resp, jobs', rl')"
  shows "(\<exists>c m. resp = Refused c m \<and> jobs' = jobs)
       \<or> (resp = JobCreated uuid
           \<and> (\<exists>j. jobs' = AList.update uuid j jobs \<and> j_status j = Queued))"
  using assms unfolding start_def Let_def
  by (auto split: if_splits option.splits prod.splits)

lemma set_job_cases:
  assumes "set_job X f jobs = Some jobs'"
  shows "\<exists>j. map_of jobs X = Some j \<and> jobs' = AList.update X (f j) jobs"
  using assms unfolding set_job_def by (auto split: option.splits)

lemma ok_move_refl: "ok_move a a"
  by (simp add: ok_move_def)

lemma evolves_refl: "j_status j = Ready \<longrightarrow> result_set j \<Longrightarrow> evolves j j"
  by (simp add: evolves_def ok_move_refl)

lemma clear_jobs_lookup:
  assumes "distinct (map fst jobs)" "map_of (clear_jobs pth jobs) k = Some j"
  shows "map_of jobs k = Some j"
proof -
  from assms(2) have "(k, j) \<in> set (clear_jobs pth jobs)" by (rule map_of_SomeD)
  then have "(k, j) \<in> set jobs" by (simp add: clear_jobs_def)
  with assms(1) show ?thesis by simp
qed

lemma clear_jobs_distinct:
  "distinct (map fst jobs) \<Longrightarrow> distinct (map fst (clear_jobs pth jobs))"
  by (simp add: clear_jobs_def distinct_map_filter)

lemma inv_distinct: "server_inv s \<Longrightarrow> distinct (map fst (s_jobs s))"
  by (simp add: server_inv_def)

lemma inv_job: "server_inv s \<Longrightarrow> map_of (s_jobs s) k = Some j \<Longrightarrow> job_ok (s_issued s) (s_threads s) k j"
  by (simp add: server_inv_def)

lemma inv_thread: "server_inv s \<Longrightarrow> map_of (s_threads s) k = Some pc \<Longrightarrow> k \<in> set (s_issued s)"
  unfolding server_inv_def by blast

lemma goodI:
  assumes "distinct (map fst (s_jobs s'))"
    and "set (s_issued s) \<subseteq> set (s_issued s')"
    and "\<And>k j'. map_of (s_jobs s') k = Some j' \<Longrightarrow>
           job_ok (s_issued s') (s_threads s') k j'
           \<and> (case map_of (s_jobs s) k of
                 Some j \<Rightarrow> evolves j j'
               | None \<Rightarrow> k \<notin> set (s_issued s) \<and> j_status j' = Queued)"
    and "\<And>k pc. map_of (s_threads s') k = Some pc \<Longrightarrow> k \<in> set (s_issued s')"
  shows "good s s'"
  unfolding good_def server_inv_def table_step_def
  using assms by blast

lemma job_ok_evolves: "job_ok issued threads k j \<Longrightarrow> evolves j j"
  by (simp add: job_ok_def evolves_refl)

lemma step_clean:
  assumes "server_inv s"
  shows "good s (s\<lparr>s_jobs := clear_jobs pth (s_jobs s)\<rparr>)"
proof (rule goodI)
  show "distinct (map fst (s_jobs (s\<lparr>s_jobs := clear_jobs pth (s_jobs s)\<rparr>)))"
    using clear_jobs_distinct[OF inv_distinct[OF assms]] by simp
  show "set (s_issued s) \<subseteq> set (s_issued (s\<lparr>s_jobs := clear_jobs pth (s_jobs s)\<rparr>))"
    by simp
next
  fix k j'
  assume "map_of (s_jobs (s\<lparr>s_jobs := clear_jobs pth (s_jobs s)\<rparr>)) k = Some j'"
  then have "map_of (clear_jobs pth (s_jobs s)) k = Some j'" by simp
  from clear_jobs_lookup[OF inv_distinct[OF assms] this]
  have old: "map_of (s_jobs s) k = Some j'" .
  from inv_job[OF assms old] have ok: "job_ok (s_issued s) (s_threads s) k j'" .
  from ok job_ok_evolves[OF ok] old
  show "job_ok (s_issued (s\<lparr>s_jobs := clear_jobs pth (s_jobs s)\<rparr>))
          (s_threads (s\<lparr>s_jobs := clear_jobs pth (s_jobs s)\<rparr>)) k j'
        \<and> (case map_of (s_jobs s) k of
              Some j \<Rightarrow> evolves j j'
            | None \<Rightarrow> k \<notin> set (s_issued s) \<and> j_status j' = Queued)"
    by simp
next
  fix k pc
  assume "map_of (s_threads (s\<lparr>s_jobs := clear_jobs pth (s_jobs s)\<rparr>)) k = Some pc"
  with inv_thread[OF assms, of k pc]
  show "k \<in> set (s_issued (s\<lparr>s_jobs := clear_jobs pth (s_jobs s)\<rparr>))" by simp
qed


lemma job_ok_mono:
  assumes "job_ok issued threads k j" "set issued \<subseteq> set issued'"
    "map_of threads' k = map_of threads k"
  shows "job_ok issued' threads' k j"
  using assms unfolding job_ok_def by auto

lemma job_ok_ended:
  assumes "job_ok issued threads k j"
  shows "job_ok issued (AList.update X Ended threads) k j"
  using assms unfolding job_ok_def by (simp add: update_conv')

lemma good_update:
  assumes inv: "server_inv s"
    and jobs': "s_jobs s' = AList.update X j' (s_jobs s)"
    and issued: "set (s_issued s) \<subseteq> set (s_issued s')"
    and threads: "\<And>k. k \<noteq> X \<Longrightarrow> map_of (s_threads s') k = map_of (s_threads s) k"
    and okX: "job_ok (s_issued s') (s_threads s') X j'"
    and evX: "case map_of (s_jobs s) X of
                Some j \<Rightarrow> evolves j j'
              | None \<Rightarrow> X \<notin> set (s_issued s) \<and> j_status j' = Queued"
  shows "good s s'"
proof (rule goodI)
  show "distinct (map fst (s_jobs s'))"
    unfolding jobs' using inv_distinct[OF inv] by (rule distinct_update)
  show "set (s_issued s) \<subseteq> set (s_issued s')" by (rule issued)
next
  fix k j''
  assume lk: "map_of (s_jobs s') k = Some j''"
  show "job_ok (s_issued s') (s_threads s') k j''
        \<and> (case map_of (s_jobs s) k of
              Some j \<Rightarrow> evolves j j''
            | None \<Rightarrow> k \<notin> set (s_issued s) \<and> j_status j'' = Queued)"
  proof (cases "k = X")
    case True
    with lk have "j'' = j'" unfolding jobs' by (simp add: update_conv')
    with True okX evX show ?thesis by (simp split: option.splits)
  next
    case False
    with lk have old: "map_of (s_jobs s) k = Some j''" unfolding jobs' by (simp add: update_conv')
    from inv_job[OF inv old] have ok: "job_ok (s_issued s) (s_threads s) k j''" .
    from job_ok_mono[OF ok issued threads[OF False]] job_ok_evolves[OF ok] old
    show ?thesis by simp
  qed
next
  fix k pc
  assume t: "map_of (s_threads s') k = Some pc"
  show "k \<in> set (s_issued s')"
  proof (cases "k = X")
    case True
    with okX show ?thesis by (simp add: job_ok_def)
  next
    case False
    with t threads[OF False] have "map_of (s_threads s) k = Some pc" by simp
    from inv_thread[OF inv this] issued show ?thesis by blast
  qed
qed

lemma good_same_jobs:
  assumes inv: "server_inv s"
    and jobs': "s_jobs s' = s_jobs s"
    and issued: "set (s_issued s) \<subseteq> set (s_issued s')"
    and threads: "\<And>k j. map_of (s_jobs s) k = Some j \<Longrightarrow>
                     job_ok (s_issued s) (s_threads s) k j \<Longrightarrow>
                     job_ok (s_issued s') (s_threads s') k j"
    and thr: "\<And>k pc. map_of (s_threads s') k = Some pc \<Longrightarrow> k \<in> set (s_issued s')"
  shows "good s s'"
proof (rule goodI)
  show "distinct (map fst (s_jobs s'))" unfolding jobs' by (rule inv_distinct[OF inv])
  show "set (s_issued s) \<subseteq> set (s_issued s')" by (rule issued)
next
  fix k j'
  assume "map_of (s_jobs s') k = Some j'"
  then have old: "map_of (s_jobs s) k = Some j'" unfolding jobs' .
  from inv_job[OF inv old] have ok: "job_ok (s_issued s) (s_threads s) k j'" .
  from threads[OF old ok] job_ok_evolves[OF ok] old
  show "job_ok (s_issued s') (s_threads s') k j'
        \<and> (case map_of (s_jobs s) k of
              Some j \<Rightarrow> evolves j j'
            | None \<Rightarrow> k \<notin> set (s_issued s) \<and> j_status j' = Queued)"
    by simp
next
  fix k pc
  assume "map_of (s_threads s') k = Some pc"
  then show "k \<in> set (s_issued s')" by (rule thr)
qed

lemma good_thread_ended:
  assumes inv: "server_inv s" and t: "map_of (s_threads s) X = Some pc"
  shows "good s (s\<lparr>s_threads := AList.update X Ended (s_threads s)\<rparr>)"
proof (rule good_same_jobs[OF inv])
  show "s_jobs (s\<lparr>s_threads := AList.update X Ended (s_threads s)\<rparr>) = s_jobs s" by simp
  show "set (s_issued s) \<subseteq> set (s_issued (s\<lparr>s_threads := AList.update X Ended (s_threads s)\<rparr>))"
    by simp
next
  fix k j
  assume "job_ok (s_issued s) (s_threads s) k j"
  from job_ok_ended[OF this, of X]
  show "job_ok (s_issued (s\<lparr>s_threads := AList.update X Ended (s_threads s)\<rparr>))
          (s_threads (s\<lparr>s_threads := AList.update X Ended (s_threads s)\<rparr>)) k j"
    by simp
next
  fix k pc'
  assume "map_of (s_threads (s\<lparr>s_threads := AList.update X Ended (s_threads s)\<rparr>)) k = Some pc'"
  then have "k = X \<or> map_of (s_threads s) k = Some pc'"
    by (simp add: update_conv' split: if_splits)
  with inv_thread[OF inv t] inv_thread[OF inv, of k pc']
  show "k \<in> set (s_issued (s\<lparr>s_threads := AList.update X Ended (s_threads s)\<rparr>))"
    by auto
qed


lemma good_refl: "server_inv s \<Longrightarrow> good s s"
  by (rule good_same_jobs) (simp_all add: inv_thread)

lemma hook_cases:
  "yt_progress_hook X d jobs = jobs
   \<or> (\<exists>j pr. map_of jobs X = Some j
         \<and> yt_progress_hook X d jobs = AList.update X (j\<lparr>j_progress := pr\<rparr>) jobs)"
proof (cases "map_of jobs X")
  case None
  then show ?thesis by (simp add: yt_progress_hook_def)
next
  case (Some j)
  have "\<exists>pr. AList.update X (j\<lparr>j_progress := p\<rparr>) jobs
            = AList.update X (j\<lparr>j_progress := pr\<rparr>) jobs" for p
    by blast
  then show ?thesis
    using Some unfolding yt_progress_hook_def Let_def
    by (simp only: option.case split: if_split) blast
qed

lemma result_set_progress: "result_set (j\<lparr>j_progress := pr\<rparr>) = result_set j"
  by (simp add: result_set_def)

lemma job_ok_same:
  assumes "job_ok issued threads k j" "j_status j' = j_status j" "result_set j' = result_set j"
  shows "job_ok issued threads k j'"
  using assms unfolding job_ok_def by simp

lemma step_hook:
  assumes inv: "server_inv s"
  shows "good s (s\<lparr>s_jobs := yt_progress_hook X d (s_jobs s)\<rparr>)"
proof -
  from hook_cases[of X d "s_jobs s"]
  consider "yt_progress_hook X d (s_jobs s) = s_jobs s"
    | j pr where "map_of (s_jobs s) X = Some j"
        "yt_progress_hook X d (s_jobs s) = AList.update X (j\<lparr>j_progress := pr\<rparr>) (s_jobs s)"
    by blast
  then show ?thesis
  proof cases
    case 1
    then have "s\<lparr>s_jobs := yt_progress_hook X d (s_jobs s)\<rparr> = s" by simp
    with good_refl[OF inv] show ?thesis by simp
  next
    case (2 j pr)
    from inv_job[OF inv 2(1)] have ok: "job_ok (s_issued s) (s_threads s) X j" .
    show ?thesis
    proof (rule good_update[OF inv, where X = X and j' = "j\<lparr>j_progress := pr\<rparr>"])
      show "s_jobs (s\<lparr>s_jobs := yt_progress_hook X d (s_jobs s)\<rparr>)
              = AList.update X (j\<lparr>j_progress := pr\<rparr>) (s_jobs s)"
        using 2(2) by simp
      show "set (s_issued s) \<subseteq> set (s_issued (s\<lparr>s_jobs := yt_progress_hook X d (s_jobs s)\<rparr>))"
        by simp
      show "map_of (s_threads (s\<lparr>s_jobs := yt_progress_hook X d (s_jobs s)\<rparr>)) k
              = map_of (s_threads s) k" for k
        by simp
      show "job_ok (s_issued (s\<lparr>s_jobs := yt_progress_hook X d (s_jobs s)\<rparr>))
              (s_threads (s\<lparr>s_jobs := yt_progress_hook X d (s_jobs s)\<rparr>)) X (j\<lparr>j_progress := pr\<rparr>)"
        using job_ok_same[OF ok, of "j\<lparr>j_progress := pr\<rparr>"] by (simp add: result_set_progress)
      show "case map_of (s_jobs s) X of
              Some j0 \<Rightarrow> evolves j0 (j\<lparr>j_progress := pr\<rparr>)
            | None \<Rightarrow> X \<notin> set (s_issued s) \<and> j_status (j\<lparr>j_progress := pr\<rparr>) = Queued"
        using 2(1) ok by (simp add: evolves_def ok_move_refl job_ok_def result_set_progress)
    qed
  qed
qed

lemma step_enter:
  assumes inv: "server_inv s" and t: "map_of (s_threads s) X = Some (Spawned fmt)"
    and e: "run_download_job_enter cfg X (s_jobs s) = Some jobs'"
  shows "good s (s\<lparr>s_jobs := jobs', s_threads := AList.update X (InEngine fmt) (s_threads s)\<rparr>)"
proof -
  let ?s' = "s\<lparr>s_jobs := jobs', s_threads := AList.update X (InEngine fmt) (s_threads s)\<rparr>"
  from set_job_cases[OF e[unfolded run_download_job_enter_def Let_def]]
  obtain j where j: "map_of (s_jobs s) X = Some j"
    and jobs': "jobs' = AList.update X
        (j\<lparr>j_temp_dir := Some (path_join (BASE_DOWNLOAD_DIR cfg) X), j_status := Running,
           j_progress := PStarted\<rparr>) (s_jobs s)"
    by blast
  let ?j' = "j\<lparr>j_temp_dir := Some (path_join (BASE_DOWNLOAD_DIR cfg) X), j_status := Running,
               j_progress := PStarted\<rparr>"
  from inv_job[OF inv j] t have ok: "job_ok (s_issued s) (s_threads s) X j"
    and q: "j_status j = Queued"
    by (simp_all add: job_ok_def)
  show ?thesis
  proof (rule good_update[OF inv, where X = X and j' = ?j'])
    show "s_jobs ?s' = AList.update X ?j' (s_jobs s)" using jobs' by simp
    show "set (s_issued s) \<subseteq> set (s_issued ?s')" by simp
    show "map_of (s_threads ?s') k = map_of (s_threads s) k" if "k \<noteq> X" for k
      using that by (simp add: update_conv')
    show "job_ok (s_issued ?s') (s_threads ?s') X ?j'"
      using ok by (simp add: job_ok_def update_conv')
    show "case map_of (s_jobs s) X of
            Some j0 \<Rightarrow> evolves j0 ?j'
          | None \<Rightarrow> X \<notin> set (s_issued s) \<and> j_status ?j' = Queued"
      using j q by (simp add: evolves_def ok_move_def)
  qed
qed

lemma mark_error_cases:
  assumes "mark_error X m jobs = Some jobs'"
  shows "\<exists>j j'. map_of jobs X = Some j \<and> finished j j' \<and> jobs' = AList.update X j' jobs"
  using set_job_cases[OF assms[unfolded mark_error_def]] unfolding finished_def by blast

lemma mark_ready_cases:
  assumes "mark_ready X p sz jobs = Some jobs'" "p \<noteq> []"
  shows "\<exists>j j'. map_of jobs X = Some j \<and> finished j j' \<and> jobs' = AList.update X j' jobs"
  using set_job_cases[OF assms(1)[unfolded mark_ready_def]] assms(2) unfolding finished_def by blast

lemma in_try_cases:
  assumes "in_try X jobs r = Some jobs'"
  shows "r = Some jobs' \<or> mark_error X ''Server error while processing the download.'' jobs = Some jobs'"
  using assms unfolding in_try_def on_unexpected_def by (cases r) simp_all

lemma finish_cases:
  assumes "run_download_job_finish env X fmt jobs = Some jobs'"
  shows "\<exists>j j'. map_of jobs X = Some j \<and> finished j j' \<and> jobs' = AList.update X j' jobs"
proof -
  from assms consider
      (e) m where "mark_error X m jobs = Some jobs'"
    | (r) p where "find_produced (if fmt = ''audio'' then ''mp3'' else ''mp4'') (walk env) = Some p"
        "mark_ready X p (getsize env) jobs = Some jobs'"
    unfolding run_download_job_finish_def Let_def on_unexpected_def
    by (auto split: if_splits engine_outcome.splits option.splits dest!: in_try_cases)
  then show ?thesis
  proof cases
    case e
    then show ?thesis by (rule mark_error_cases)
  next
    case r
    from mark_ready_cases[OF r(2) find_produced_nonempty[OF r(1)]] show ?thesis .
  qed
qed

lemma finished_facts:
  assumes "finished j j'"
  shows "j_status j' = Error \<or> j_status j' = Ready" "j_status j' = Ready \<longrightarrow> result_set j'"
  using assms unfolding finished_def result_set_def by auto

lemma step_finish:
  assumes inv: "server_inv s" and t: "map_of (s_threads s) X = Some (InEngine fmt)"
  shows "good s (s\<lparr>s_jobs := (case run_download_job_finish env X fmt (s_jobs s) of
                                  None \<Rightarrow> s_jobs s | Some jobs \<Rightarrow> jobs),
                     s_threads := AList.update X Ended (s_threads s)\<rparr>)"
proof (cases "run_download_job_finish env X fmt (s_jobs s)")
  case None
  with good_thread_ended[OF inv t] show ?thesis by simp
next
  case (Some jobs')
  let ?s' = "s\<lparr>s_jobs := jobs', s_threads := AList.update X Ended (s_threads s)\<rparr>"
  from finish_cases[OF Some] obtain j j' where j: "map_of (s_jobs s) X = Some j"
    and f: "finished j j'" and jobs': "jobs' = AList.update X j' (s_jobs s)"
    by blast
  from inv_job[OF inv j] t have iss: "X \<in> set (s_issued s)" and run: "j_status j = Running"
    by (simp_all add: job_ok_def)
  have "good s ?s'"
  proof (rule good_update[OF inv, where X = X and j' = j'])
    show "s_jobs ?s' = AList.update X j' (s_jobs s)" using jobs' by simp
    show "set (s_issued s) \<subseteq> set (s_issued ?s')" by simp
    show "map_of (s_threads ?s') k = map_of (s_threads s) k" if "k \<noteq> X" for k
      using that by (simp add: update_conv')
    show "job_ok (s_issued ?s') (s_threads ?s') X j'"
      using iss finished_facts(2)[OF f] by (simp add: job_ok_def update_conv')
    show "case map_of (s_jobs s) X of
            Some j0 \<Rightarrow> evolves j0 j'
          | None \<Rightarrow> X \<notin> set (s_issued s) \<and> j_status j' = Queued"
      using j run finished_facts[OF f] by (auto simp: evolves_def ok_move_def)
  qed
  with Some show ?thesis by simp
qed

lemma step_start_refused:
  assumes inv: "server_inv s"
  shows "good s (s\<lparr>s_jobs := s_jobs s, s_rate_limit := rl'\<rparr>)"
proof (rule good_same_jobs[OF inv])
  let ?s' = "s\<lparr>s_jobs := s_jobs s, s_rate_limit := rl'\<rparr>"
  show "s_jobs ?s' = s_jobs s" by simp
  show "set (s_issued s) \<subseteq> set (s_issued ?s')" by simp
  show "job_ok (s_issued ?s') (s_threads ?s') k j"
    if "job_ok (s_issued s) (s_threads s) k j" for k j
    using that by simp
  show "k \<in> set (s_issued ?s')" if "map_of (s_threads ?s') k = Some pc" for k pc
    using that inv_thread[OF inv, of k pc] by simp
qed

lemma step_start_created:
  assumes inv: "server_inv s" and fresh: "uuid \<notin> set (s_issued s)"
    and q: "j_status j = Queued"
  shows "good s (s\<lparr>s_jobs := AList.update uuid j (s_jobs s), s_rate_limit := rl',
                     s_threads := AList.update uuid (Spawned fmt) (s_threads s),
                     s_issued := uuid # s_issued s\<rparr>)"
proof -
  let ?s' = "s\<lparr>s_jobs := AList.update uuid j (s_jobs s), s_rate_limit := rl',
                s_threads := AList.update uuid (Spawned fmt) (s_threads s),
                s_issued := uuid # s_issued s\<rparr>"
  have absent: "map_of (s_jobs s) uuid = None"
  proof (cases "map_of (s_jobs s) uuid")
    case None then show ?thesis .
  next
    case (Some j0)
    from inv_job[OF inv Some] fresh show ?thesis by (simp add: job_ok_def)
  qed
  show ?thesis
  proof (rule good_update[OF inv, where X = uuid and j' = j])
    show "s_jobs ?s' = AList.update uuid j (s_jobs s)" by simp
    show "set (s_issued s) \<subseteq> set (s_issued ?s')" by auto
    show "map_of (s_threads ?s') k = map_of (s_threads s) k" if "k \<noteq> uuid" for k
      using that by (simp add: update_conv')
    show "job_ok (s_issued ?s') (s_threads ?s') uuid j"
      using q by (simp add: job_ok_def update_conv')
    show "case map_of (s_jobs s) uuid of
            Some j0 \<Rightarrow> evolves j0 j
          | None \<Rightarrow> uuid \<notin> set (s_issued s) \<and> j_status j = Queued"
      using absent fresh q by simp
  qed
qed

lemma step_good:
  assumes inv: "server_inv s" and st: "step up cfg a s = Some s'"
  shows "good s s'"
proof (cases a)
  case (Start req now created uuid)
  obtain resp jobs' rl' where r: "start up cfg req now created uuid (s_jobs s) (s_rate_limit s)
                                   = (resp, jobs', rl')"
    by (cases "start up cfg req now created uuid (s_jobs s) (s_rate_limit s)")
  from start_cases[OF r] consider
      (refused) c m where "resp = Refused c m" "jobs' = s_jobs s"
    | (created) j where "resp = JobCreated uuid" "jobs' = AList.update uuid j (s_jobs s)"
        "j_status j = Queued"
    by blast
  then show ?thesis
  proof cases
    case refused
    with st Start r have "s' = s\<lparr>s_jobs := s_jobs s, s_rate_limit := rl'\<rparr>"
      by (simp add: step_def)
    with step_start_refused[OF inv, of rl'] show ?thesis by simp
  next
    case created
    from st Start r created(1) have fresh: "uuid \<notin> set (s_issued s)"
      by (auto simp: step_def split: if_splits)
    from st Start r created(1,2) fresh
    have "s' = s\<lparr>s_jobs := AList.update uuid j (s_jobs s), s_rate_limit := rl',
                   s_threads := AList.update uuid
                     (Spawned (case r_format req of None \<Rightarrow> ''mp4'' | Some f \<Rightarrow> f)) (s_threads s),
                   s_issued := uuid # s_issued s\<rparr>"
      by (simp add: step_def)
    with step_start_created[OF inv fresh created(3)] show ?thesis by simp
  qed
next
  case (Enter X makedirs_ok)
  from st Enter obtain fmt where t: "map_of (s_threads s) X = Some (Spawned fmt)"
    by (auto simp: step_def split: option.splits thread_pc.splits)
  show ?thesis
  proof (cases "makedirs_ok \<and> run_download_job_enter cfg X (s_jobs s) \<noteq> None")
    case True
    then obtain jobs' where e: "run_download_job_enter cfg X (s_jobs s) = Some jobs'" by auto
    from step_enter[OF inv t e] st Enter t True e show ?thesis
      by (simp add: step_def)
  next
    case False
    from good_thread_ended[OF inv t] st Enter t False show ?thesis
      by (auto simp: step_def split: option.splits)
  qed
next
  case (Hook X d)
  from step_hook[OF inv, of X d] st Hook show ?thesis
    by (auto simp: step_def split: option.splits thread_pc.splits)
next
  case (Finish X env)
  from st Finish obtain fmt where t: "map_of (s_threads s) X = Some (InEngine fmt)"
    by (auto simp: step_def split: option.splits thread_pc.splits)
  from step_finish[OF inv t, of env] st Finish t show ?thesis
    by (simp add: step_def)
next
  case (Clean pth)
  from step_clean[OF inv, of pth] st Clean show ?thesis
    by (simp add: step_def)
qed


lemma inv_boot: "server_inv boot"
  by (simp add: server_inv_def boot_def)

lemma exec_Cons_Some:
  assumes "exec up cfg (a # as) s = Some states"
  shows "\<exists>s1 rest. step up cfg a s = Some s1 \<and> exec up cfg as s1 = Some rest \<and> states = s1 # rest"
  using assms by (auto split: option.splits)

lemma statuses_Cons:
  "statuses X (s1 # rest) =
     (case map_of (s_jobs s1) X of
        None \<Rightarrow> statuses X rest
      | Some j \<Rightarrow> j_status j # statuses X rest)"
  by (simp add: statuses_def map_filter_simps split: option.splits)

lemma statuses_Nil: "statuses X [] = []"
  by (simp add: statuses_def map_filter_simps)

lemma good_inv: "good s s' \<Longrightarrow> server_inv s'"
  by (simp add: good_def)

lemma good_issued: "good s s' \<Longrightarrow> X \<in> set (s_issued s) \<Longrightarrow> X \<in> set (s_issued s')"
  unfolding good_def by blast

lemma good_old:
  assumes "good s s'" "map_of (s_jobs s') X = Some j'" "map_of (s_jobs s) X = Some j"
  shows "ok_move (j_status j) (j_status j')"
  using assms unfolding good_def table_step_def evolves_def by fastforce

lemma good_new:
  assumes "good s s'" "map_of (s_jobs s') X = Some j'" "map_of (s_jobs s) X = None"
  shows "X \<notin> set (s_issued s) \<and> j_status j' = Queued"
  using assms unfolding good_def table_step_def by fastforce

lemma exec_inv:
  assumes "server_inv s" "exec up cfg acts s = Some states" "t \<in> set states"
  shows "server_inv t"
  using assms
proof (induction acts arbitrary: s states)
  case Nil
  then show ?case by simp
next
  case (Cons a as)
  from exec_Cons_Some[OF Cons.prems(2)] obtain s1 rest
    where st: "step up cfg a s = Some s1" and ex: "exec up cfg as s1 = Some rest"
      and states: "states = s1 # rest"
    by blast
  from step_good[OF Cons.prems(1) st] have i1: "server_inv s1" by (rule good_inv)
  from Cons.prems(3) states have "t = s1 \<or> t \<in> set rest" by simp
  with i1 Cons.IH[OF i1 ex] show ?case by blast
qed

lemma follows_traj:
  assumes "server_inv s" "exec up cfg acts s = Some states" "X \<in> set (s_issued s)"
  shows "case map_of (s_jobs s) X of
           Some j \<Rightarrow> follows (j_status j) (statuses X states)
         | None \<Rightarrow> statuses X states = []"
  using assms
proof (induction acts arbitrary: s states)
  case Nil
  then show ?case by (simp add: statuses_Nil split: option.splits)
next
  case (Cons a as)
  from exec_Cons_Some[OF Cons.prems(2)] obtain s1 rest
    where st: "step up cfg a s = Some s1" and ex: "exec up cfg as s1 = Some rest"
      and states: "states = s1 # rest"
    by blast
  note g = step_good[OF Cons.prems(1) st]
  note ih = Cons.IH[OF good_inv[OF g] ex good_issued[OF g Cons.prems(3)]]
  show ?case
  proof (cases "map_of (s_jobs s1) X")
    case None
    with ih show ?thesis
      unfolding states statuses_Cons by (simp split: option.splits)
  next
    case (Some j1)
    with ih have f1: "follows (j_status j1) (statuses X rest)" by simp
    show ?thesis
    proof (cases "map_of (s_jobs s) X")
      case None
      from good_new[OF g Some None] Cons.prems(3) show ?thesis by simp
    next
      case (Some j)
      from good_old[OF g \<open>map_of (s_jobs s1) X = Some j1\<close> Some] f1
      show ?thesis
        unfolding states statuses_Cons by (simp add: Some \<open>map_of (s_jobs s1) X = Some j1\<close>)
    qed
  qed
qed

lemma lifecycle_traj:
  assumes "server_inv s" "exec up cfg acts s = Some states" "map_of (s_jobs s) X = None"
  shows "lifecycle (statuses X states)"
  using assms
proof (induction acts arbitrary: s states)
  case Nil
  then show ?case by (simp add: statuses_Nil)
next
  case (Cons a as)
  from exec_Cons_Some[OF Cons.prems(2)] obtain s1 rest
    where st: "step up cfg a s = Some s1" and ex: "exec up cfg as s1 = Some rest"
      and states: "states = s1 # rest"
    by blast
  note g = step_good[OF Cons.prems(1) st]
  show ?case
  proof (cases "map_of (s_jobs s1) X")
    case None
    from Cons.IH[OF good_inv[OF g] ex None] None show ?thesis
      unfolding states statuses_Cons by simp
  next
    case (Some j1)
    from good_new[OF g Some Cons.prems(3)] have q: "j_status j1 = Queued" by simp
    from inv_job[OF good_inv[OF g] Some] have "X \<in> set (s_issued s1)" by (simp add: job_ok_def)
    from follows_traj[OF good_inv[OF g] ex this] Some
    have "follows (j_status j1) (statuses X rest)" by simp
    with q Some show ?thesis
      unfolding states statuses_Cons by simp
  qed
qed

lemma ok_move_rank: "ok_move a b \<Longrightarrow> rank a \<le> rank b"
  by (cases a; cases b) (simp_all add: ok_move_def)

lemma follows_rank: "follows a xs \<Longrightarrow> sorted (map rank (a # xs))"
proof (induction xs arbitrary: a)
  case Nil
  show ?case by simp
next
  case (Cons b xs)
  from Cons.prems have m: "ok_move a b" and f: "follows b xs" by simp_all
  from Cons.IH[OF f] ok_move_rank[OF m] show ?case by auto
qed

lemma lifecycle_rank: "lifecycle xs \<Longrightarrow> sorted (map rank xs)"
proof (cases xs)
  case Nil
  then show ?thesis by simp
next
  case (Cons a ys)
  assume "lifecycle xs"
  with Cons have "follows a ys" by auto
  from follows_rank[OF this] Cons show ?thesis by simp
qed

text \<open>
  Claim C4. Along every run of the server from its start, the statuses of a job
  seen by successive readers of the table, repeats dropped, are a prefix of
  \<^verbatim>\<open>queued, running, ready\<close> or of \<^verbatim>\<open>queued, running, error\<close>: they never
  decrease, nothing follows a terminal status but itself, and \<^verbatim>\<open>ready\<close> and
  \<^verbatim>\<open>error\<close> never both occur.
\<close>

theorem job_status_lifecycle:
  assumes "exec up cfg acts boot = Some states"
  shows "remdups_adj (statuses job_id (boot # states))
           \<in> {[], [Queued], [Queued, Running], [Queued, Running, Ready], [Queued, Running, Error]}
         \<and> sorted (map rank (statuses job_id (boot # states)))
         \<and> \<not> (Ready \<in> set (statuses job_id (boot # states))
               \<and> Error \<in> set (statuses job_id (boot # states)))"
proof -
  have b: "map_of (s_jobs boot) job_id = None" by (simp add: boot_def)
  then have eq: "statuses job_id (boot # states) = statuses job_id states"
    by (simp add: statuses_Cons)
  from lifecycle_traj[OF inv_boot assms b] have l: "lifecycle (statuses job_id states)" .
  note r = lifecycle_remdups_adj[OF l]
  from r have "\<not> (Ready \<in> set (remdups_adj (statuses job_id states))
                   \<and> Error \<in> set (remdups_adj (statuses job_id states)))"
    by (auto simp del: remdups_adj_set)
  then have "\<not> (Ready \<in> set (statuses job_id states) \<and> Error \<in> set (statuses job_id states))"
    by simp
  with r lifecycle_rank[OF l] show ?thesis unfolding eq by blast
qed

text \<open>
  Claim C5. The block that sets status \<^verbatim>\<open>ready\<close> sets the file path, the base
  name and the size in the same locked block, so in every state of every run a
  job in status \<^verbatim>\<open>ready\<close> has a non-empty file path and its base name as file
  name: \<^verbatim>\<open>/download\<close> sends that file and the progress stream reports the name.
\<close>

theorem ready_job_has_result:
  assumes "exec up cfg acts boot = Some states" and "s \<in> set (boot # states)"
    and "map_of (s_jobs s) job_id = Some j" and "j_status j = Ready"
  shows "\<exists>p. p \<noteq> [] \<and> j_filepath j = Some p \<and> j_filename j = Some (basename p)
             \<and> download job_id (s_jobs s) = SendFile p (basename p)
             \<and> events_payload job_id (s_jobs s)
                 = Snapshot Ready (j_progress j) None (Some (basename p)) (j_size j)"
proof -
  from assms(2) have "s = boot \<or> s \<in> set states" by simp
  with inv_boot exec_inv[OF inv_boot assms(1)] have "server_inv s" by blast
  from inv_job[OF this assms(3)] assms(4) have "result_set j" by (simp add: job_ok_def)
  then obtain p where p: "p \<noteq> []" "j_filepath j = Some p" "j_filename j = Some (basename p)"
    unfolding result_set_def by blast
  from p assms(3,4) have "download job_id (s_jobs s) = SendFile p (basename p)"
    by (simp add: download_def truthy_def)
  moreover from p assms(3,4) have "events_payload job_id (s_jobs s)
                 = Snapshot Ready (j_progress j) None (Some (basename p)) (j_size j)"
    by (simp add: events_payload_def)
  ultimately show ?thesis using p by blast
qed

lemmas run_defs =
  demo_run_def half_way_def clip_env_def reel_request_def srv_def default_config_def boot_def
  step_def start_def is_valid_instagram_url_def urlparse_plain_def lower_def lower_char_def
  suffix_to_prefix truthy_def py_or_def get_client_ip_def check_rate_limit_def
  run_download_job_enter_def run_download_job_finish_def set_job_def in_try_def mark_ready_def
  mark_error_def yt_progress_hook_def path_join_def basename_def Let_def

text \<open>The example run: the job is seen queued, running twice, then ready.\<close>

theorem job_status_lifecycle_witness:
  "\<exists>states. exec urlparse_plain srv demo_run boot = Some states
      \<and> statuses ''a1'' (boot # states) = [Queued, Running, Running, Ready]
      \<and> remdups_adj (statuses ''a1'' (boot # states)) = [Queued, Running, Ready]
      \<and> sorted (map rank (statuses ''a1'' (boot # states)))"
proof -
  have "map_option (statuses ''a1'') (exec urlparse_plain srv demo_run boot)
     = Some [Queued, Running, Running, Ready]"
    by (simp add: run_defs statuses_def map_filter_simps)
  then obtain states where e: "exec urlparse_plain srv demo_run boot = Some states"
    and st: "statuses ''a1'' states = [Queued, Running, Running, Ready]"
    by auto
  have "statuses ''a1'' (boot # states) = statuses ''a1'' states"
    by (simp add: statuses_def map_filter_simps boot_def)
  with st have all: "statuses ''a1'' (boot # states) = [Queued, Running, Running, Ready]"
    by simp
  from job_status_lifecycle[OF e, of "''a1''"]
  have "sorted (map rank (statuses ''a1'' (boot # states)))" by blast
  moreover from all have "remdups_adj (statuses ''a1'' (boot # states)) = [Queued, Running, Ready]"
    by simp
  ultimately show ?thesis using e all by blast
qed

text \<open>At the end of the example run the file of the job can be fetched.\<close>

theorem ready_job_has_result_witness:
  "\<exists>states s j. exec urlparse_plain srv demo_run boot = Some states
      \<and> s \<in> set (boot # states)
      \<and> map_of (s_jobs s) ''a1'' = Some j
      \<and> j_status j = Ready
      \<and> j_filepath j = Some ''/srv/downloads/a1/clip.mp4''
      \<and> download ''a1'' (s_jobs s) = SendFile ''/srv/downloads/a1/clip.mp4'' ''clip.mp4''"
proof -
  have "map_option (\<lambda>ss. map_option (\<lambda>j. (j_status j, j_filepath j)) (map_of (s_jobs (last ss)) ''a1''))
     (exec urlparse_plain srv demo_run boot)
   = Some (Some (Ready, Some ''/srv/downloads/a1/clip.mp4''))"
    by (simp add: run_defs)
  then obtain states j where e: "exec urlparse_plain srv demo_run boot = Some states"
    and j: "map_of (s_jobs (last states)) ''a1'' = Some j"
    and r: "j_status j = Ready" and f: "j_filepath j = Some ''/srv/downloads/a1/clip.mp4''"
    by auto
  from e have "states \<noteq> []" by (auto simp: demo_run_def split: option.splits)
  then have m: "last states \<in> set (boot # states)" by simp
  from ready_job_has_result[OF e m j r] f
  have "download ''a1'' (s_jobs (last states))
          = SendFile ''/srv/downloads/a1/clip.mp4'' (basename ''/srv/downloads/a1/clip.mp4'')"
    by auto
  then have "download ''a1'' (s_jobs (last states))
          = SendFile ''/srv/downloads/a1/clip.mp4'' ''clip.mp4''"
    by (simp add: basename_def)
  with e m j r f show ?thesis by blast
qed

end
